theory Spec2Isabelle
  imports Main
begin

text \<open>
  A shallow embedding of the two learners of STMLearn: the L* learner for Mealy machines
  (\<^verbatim>\<open>stmlearn/learners/_lstar_mealy_learner.py\<close>) and the TTT learner
  (\<^verbatim>\<open>stmlearn/learners/_ttt_mealy_learner.py\<close>). Input symbols have type \<open>'a\<close>, words are
  lists of symbols (Python tuples), and \<open>'o\<close> is the type of what a membership query
  answers. Python's sets and dictionaries iterate in an order that is fixed but not
  specified; the model keeps them as duplicate-free lists, and the theorems hold for every
  such list.
\<close>

section \<open>Errors and result passing\<close>

text \<open>
  Every Python exception the modelled code can raise is a value of \<open>error\<close>; a method
  that mutates the learner returns \<open>Inr (result, learner')\<close> or \<open>Inl error\<close>.
  \<open>RowError\<close> is the \<^verbatim>\<open>Exception("s not in S \<union> S\<cdot>A")\<close> of \<^verbatim>\<open>_get_row\<close>, \<open>KeyError\<close> a failed
  dictionary lookup, \<open>ValueError\<close> a failed tuple unpacking, \<open>AssertionError\<close> a failed
  \<^verbatim>\<open>assert\<close>, \<open>EdgeError\<close> the refusal of \<^verbatim>\<open>add_edge\<close>, \<open>IndexError\<close> the first element of an
  empty tuple, and \<open>AttributeError\<close> a method call on \<^verbatim>\<open>None\<close>. An exception ends the
  call: the learner that a raising call leaves behind, changed halfway, is not part of the
  result, and the theorems about a call are about a call that returns.
\<close>

datatype error =
  RowError | KeyError | ValueError | AssertionError | EdgeError | IndexError | AttributeError

definition ebind :: "error + 'x \<Rightarrow> ('x \<Rightarrow> error + 'y) \<Rightarrow> error + 'y" where
  "ebind m f = (case m of Inl e \<Rightarrow> Inl e | Inr x \<Rightarrow> f x)"

text \<open>The value a method returns, without the learner it leaves behind.\<close>

definition value_of :: "error + 'r \<times> 's \<Rightarrow> error + 'r" where
  "value_of m = map_sum id fst m"

section \<open>External collaborators\<close>

subsection \<open>Mealy model\<close>

text \<open>
  \<^verbatim>\<open>MealyState\<close> objects reference each other through their edges, so the hypothesis is a
  store of states addressed by a key \<open>'k\<close> (the row of the state for L*, the state's number
  for TTT); an edge holds the key of its target, as the Python edge holds a reference to it.
\<close>

record ('a, 'o, 'k) mealy_state =
  name :: string
  edges :: "'a \<rightharpoonup> ('k \<times> 'o)"

record ('a, 'o, 'k) mealy_machine =
  initial_state :: 'k
  states :: "'k \<rightharpoonup> ('a, 'o, 'k) mealy_state"

definition MealyState :: "string \<Rightarrow> ('a, 'o, 'k) mealy_state" where
  "MealyState n = \<lparr>name = n, edges = Map.empty\<rparr>"

text \<open>
  Modelled from the spec: \<^verbatim>\<open>MealyState.add_edge\<close> lives in \<^verbatim>\<open>stmlearn.suls\<close>, which is not among
  the sources. Section 4.2: "inserts \<open>\<delta>(q,a) = q'\<close>, \<open>\<lambda>(q,a) = o\<close>. Optionally \<^verbatim>\<open>override=true\<close>
  replaces an existing edge; otherwise re-adding the same edge is a no-op and a conflicting
  edge is a programming error."
\<close>

definition add_edge ::
  "('a, 'o, 'k) mealy_state \<Rightarrow> 'a \<Rightarrow> 'o \<Rightarrow> 'k \<Rightarrow> bool \<Rightarrow> error + ('a, 'o, 'k) mealy_state" where
  "add_edge q a out q' override =
     (if override then Inr (q\<lparr>edges := (edges q)(a \<mapsto> (q', out))\<rparr>)
      else (case edges q a of
              None \<Rightarrow> Inr (q\<lparr>edges := (edges q)(a \<mapsto> (q', out))\<rparr>)
            | Some edge \<Rightarrow> if edge = (q', out) then Inr q else Inl EdgeError))"

subsection \<open>Teacher\<close>

text \<open>
  The teacher is opaque to the learners: its three operations are fields of a record.
  \<open>'o\<close> is whatever a membership query answers. A failed equivalence query answers
  \<open>(False, w)\<close> with the counterexample \<open>w\<close>.
\<close>

record ('a, 'o, 'h) teacher =
  get_alphabet :: "'a list"
  member_query :: "'a list \<Rightarrow> 'o"
  equivalence_query :: "'h \<Rightarrow> bool \<times> 'a list"

subsection \<open>NotifierSet\<close>

text \<open>
  Modelled from the spec: \<^verbatim>\<open>NotifierSet\<close> lives in \<^verbatim>\<open>stmlearn.util\<close>, which is not among the
  sources. Section 3: "Both S and E carry a change counter used to invalidate memoized
  derived sets"; section 8: "Change counters monotonically increase". The elements are kept
  as a duplicate-free list, which fixes one iteration order; \<^verbatim>\<open>add\<close> counts every call.
\<close>

record 'x notifier_set =
  elems :: "'x list"
  change_counter :: int

definition NotifierSet :: "'x notifier_set" where
  "NotifierSet = \<lparr>elems = [], change_counter = 0\<rparr>"

definition ns_add :: "'x \<Rightarrow> 'x notifier_set \<Rightarrow> 'x notifier_set" where
  "ns_add x ns =
     \<lparr>elems = (if x \<in> set (elems ns) then elems ns else elems ns @ [x]),
      change_counter = change_counter ns + 1\<rparr>"

section \<open>The L* learner\<close>

subsection \<open>State\<close>

text \<open>
  The fields of \<^verbatim>\<open>LStarMealyLearner\<close>. The dictionaries \<^verbatim>\<open>_mem\<close> and \<^verbatim>\<open>_watch\<close> are keyed by the
  name of the memoized method; each key is a field here, \<open>None\<close> when the key is absent.
  The caches of \<^verbatim>\<open>_is_closed\<close> and \<^verbatim>\<open>_is_consistent\<close> are keyed by the argument tuple
  \<^verbatim>\<open>(self,)\<close>, that is by \<open>unit\<close>.
\<close>

record ('a, 'o) lstar =
  S :: "'a list notifier_set"
  E :: "'a list notifier_set"
  T :: "'a list \<rightharpoonup> 'o"
  A :: "'a list list"
  mem_SA :: "'a list list option"
  watch_SA :: "int option"
  mem_SUSA :: "'a list list option"
  watch_SUSA :: "int option"
  mem_get_row :: "('a list \<rightharpoonup> 'o list) option"
  watch_get_row :: "(int \<times> int) option"
  mem_is_closed :: "(unit \<rightharpoonup> bool) option"
  watch_is_closed :: "(int \<times> int) option"
  mem_is_consistent :: "(unit \<rightharpoonup> bool) option"
  watch_is_consistent :: "(int \<times> int) option"

type_synonym ('a, 'o) hypothesis = "('a, 'o, 'o list) mealy_machine"

type_synonym ('a, 'o) lstar_teacher = "('a, 'o, ('a, 'o) hypothesis) teacher"

text \<open>\<^verbatim>\<open>__init__\<close>: S starts with the empty word, T is empty, A holds the one-symbol words
  of the teacher's alphabet, and every member of A is added to E.\<close>

definition lstar_init :: "('a, 'o) lstar_teacher \<Rightarrow> ('a, 'o) lstar" where
  "lstar_init tch =
     (let a = remdups (map (\<lambda>x. [x]) (get_alphabet tch)) in
      \<lparr>S = ns_add [] NotifierSet,
       E = fold ns_add a NotifierSet,
       T = Map.empty,
       A = a,
       mem_SA = None, watch_SA = None,
       mem_SUSA = None, watch_SUSA = None,
       mem_get_row = None, watch_get_row = None,
       mem_is_closed = None, watch_is_closed = None,
       mem_is_consistent = None, watch_is_consistent = None\<rparr>)"

subsection \<open>The memoization decorators\<close>

text \<open>
  \<^verbatim>\<open>depends_on_S\<close>: the wrapped method is recomputed when the change counter of S differs
  from the one last seen (0 when none was seen), and its stored result is returned
  otherwise; reading a result that was never stored is a \<open>KeyError\<close>.
\<close>

definition depends_on_S ::
  "(('a, 'o) lstar \<Rightarrow> int option) \<Rightarrow> (int \<Rightarrow> ('a, 'o) lstar \<Rightarrow> ('a, 'o) lstar) \<Rightarrow>
   (('a, 'o) lstar \<Rightarrow> 'r option) \<Rightarrow> ('r \<Rightarrow> ('a, 'o) lstar \<Rightarrow> ('a, 'o) lstar) \<Rightarrow>
   (('a, 'o) lstar \<Rightarrow> error + 'r \<times> ('a, 'o) lstar) \<Rightarrow>
   ('a, 'o) lstar \<Rightarrow> error + 'r \<times> ('a, 'o) lstar" where
  "depends_on_S get_watch set_watch get_mem set_mem func st =
     (let counter = change_counter (S st);
          st1 = (case get_watch st of None \<Rightarrow> set_watch 0 st | Some l \<Rightarrow> st);
          last_seen = (case get_watch st of None \<Rightarrow> 0 | Some l \<Rightarrow> l)
      in if last_seen \<noteq> counter then
           ebind (func st1) (\<lambda>(tmp, st2). Inr (tmp, set_watch counter (set_mem tmp st2)))
         else (case get_mem st1 of None \<Rightarrow> Inl KeyError | Some v \<Rightarrow> Inr (v, st1)))"

text \<open>
  \<^verbatim>\<open>depends_on_S_E\<close>: the cache of the wrapped method, keyed by the arguments, is emptied when
  the change counter of S or of E differs from the pair last seen (\<open>(-1, -1)\<close> when none
  was seen); a cached result is returned, a missing one is computed and stored.
\<close>

definition depends_on_S_E ::
  "(('a, 'o) lstar \<Rightarrow> (int \<times> int) option) \<Rightarrow>
   (int \<times> int \<Rightarrow> ('a, 'o) lstar \<Rightarrow> ('a, 'o) lstar) \<Rightarrow>
   (('a, 'o) lstar \<Rightarrow> ('k \<rightharpoonup> 'r) option) \<Rightarrow>
   (('k \<rightharpoonup> 'r) \<Rightarrow> ('a, 'o) lstar \<Rightarrow> ('a, 'o) lstar) \<Rightarrow>
   'k \<Rightarrow> (('a, 'o) lstar \<Rightarrow> error + 'r \<times> ('a, 'o) lstar) \<Rightarrow>
   ('a, 'o) lstar \<Rightarrow> error + 'r \<times> ('a, 'o) lstar" where
  "depends_on_S_E get_watch set_watch get_mem set_mem args func st =
     (let counter_S = change_counter (S st);
          counter_E = change_counter (E st);
          st1 = (case get_watch st of None \<Rightarrow> set_watch (- 1, - 1) st | Some l \<Rightarrow> st);
          last_seen = (case get_watch st of None \<Rightarrow> (- 1, - 1) | Some l \<Rightarrow> l);
          st2 = (if fst last_seen \<noteq> counter_S \<or> snd last_seen \<noteq> counter_E
                 then set_watch (counter_S, counter_E) (set_mem Map.empty st1) else st1)
      in case get_mem st2 of
           None \<Rightarrow> Inl KeyError
         | Some m \<Rightarrow>
             (case m args of
                Some v \<Rightarrow> Inr (v, st2)
              | None \<Rightarrow>
                  ebind (func st2) (\<lambda>(tmp, st3).
                    case get_mem st3 of
                      None \<Rightarrow> Inl KeyError
                    | Some m3 \<Rightarrow> Inr (tmp, set_mem (m3(args \<mapsto> tmp)) st3))))"

subsection \<open>Queries, \<open>S\<cdot>A\<close> and rows\<close>

text \<open>
  \<^verbatim>\<open>query\<close> returns the teacher's answer in its first statement; the statements after that
  \<^verbatim>\<open>return\<close>, which would read and fill T, are never reached, so the learner is unchanged.
\<close>

definition query :: "('a, 'o) lstar_teacher \<Rightarrow> ('a, 'o) lstar \<Rightarrow> 'a list \<Rightarrow> 'o" where
  "query tch st q = member_query tch q"

definition list_union :: "'x list \<Rightarrow> 'x list \<Rightarrow> 'x list" where
  "list_union xs ys = xs @ filter (\<lambda>y. y \<notin> set xs) (remdups ys)"

text \<open>\<^verbatim>\<open>_SA\<close>: the concatenations \<open>s + a\<close> over \<^verbatim>\<open>product(S, A)\<close>, as a set, united with A.\<close>

definition SA_body :: "('a, 'o) lstar \<Rightarrow> error + 'a list list \<times> ('a, 'o) lstar" where
  "SA_body st =
     Inr (list_union (remdups (map (\<lambda>(s, a). s @ a) (List.product (elems (S st)) (A st)))) (A st), st)"

definition SA :: "('a, 'o) lstar \<Rightarrow> error + 'a list list \<times> ('a, 'o) lstar" where
  "SA = depends_on_S watch_SA (\<lambda>w st. st\<lparr>watch_SA := Some w\<rparr>)
          mem_SA (\<lambda>m st. st\<lparr>mem_SA := Some m\<rparr>) SA_body"

text \<open>\<^verbatim>\<open>_SUSA\<close>: S united with \<open>S\<cdot>A\<close>.\<close>

definition SUSA_body :: "('a, 'o) lstar \<Rightarrow> error + 'a list list \<times> ('a, 'o) lstar" where
  "SUSA_body st = ebind (SA st) (\<lambda>(sa, st1). Inr (list_union (elems (S st1)) sa, st1))"

definition SUSA :: "('a, 'o) lstar \<Rightarrow> error + 'a list list \<times> ('a, 'o) lstar" where
  "SUSA = depends_on_S watch_SUSA (\<lambda>w st. st\<lparr>watch_SUSA := Some w\<rparr>)
            mem_SUSA (\<lambda>m st. st\<lparr>mem_SUSA := Some m\<rparr>) SUSA_body"

text \<open>\<^verbatim>\<open>_get_row\<close>: raises unless \<open>s\<close> is in \<open>S \<union> S\<cdot>A\<close>; the row is the list of the answers
  to \<open>s + e\<close> for \<open>e\<close> in E.\<close>

definition get_row_body ::
  "('a, 'o) lstar_teacher \<Rightarrow> 'a list \<Rightarrow> ('a, 'o) lstar \<Rightarrow> error + 'o list \<times> ('a, 'o) lstar" where
  "get_row_body tch s st =
     ebind (SUSA st) (\<lambda>(susa, st1).
       if s \<notin> set susa then Inl RowError
       else Inr (map (\<lambda>e. query tch st1 (s @ e)) (elems (E st1)), st1))"

definition get_row ::
  "('a, 'o) lstar_teacher \<Rightarrow> ('a, 'o) lstar \<Rightarrow> 'a list \<Rightarrow> error + 'o list \<times> ('a, 'o) lstar" where
  "get_row tch st s =
     depends_on_S_E watch_get_row (\<lambda>w st. st\<lparr>watch_get_row := Some w\<rparr>)
       mem_get_row (\<lambda>m st. st\<lparr>mem_get_row := Some m\<rparr>) s (get_row_body tch s) st"

text \<open>The list comprehension \<^verbatim>\<open>[self._get_row(s) for s in xs]\<close>.\<close>

fun get_rows ::
  "('a, 'o) lstar_teacher \<Rightarrow> 'a list list \<Rightarrow> ('a, 'o) lstar \<Rightarrow>
   error + 'o list list \<times> ('a, 'o) lstar" where
  "get_rows tch [] st = Inr ([], st)"
| "get_rows tch (s # ss) st =
     ebind (get_row tch st s) (\<lambda>(r, st1).
       ebind (get_rows tch ss st1) (\<lambda>(rs, st2). Inr (r # rs, st2)))"

text \<open>\<^verbatim>\<open>_is_closed\<close>: every row of \<open>S\<cdot>A\<close> is among the rows of S.\<close>

fun closed_loop ::
  "('a, 'o) lstar_teacher \<Rightarrow> 'o list list \<Rightarrow> 'a list list \<Rightarrow> bool \<Rightarrow> ('a, 'o) lstar \<Rightarrow>
   error + bool \<times> ('a, 'o) lstar" where
  "closed_loop tch S_rows [] is_closed st = Inr (is_closed, st)"
| "closed_loop tch S_rows (t # ts) is_closed st =
     ebind (get_row tch st t) (\<lambda>(r, st1).
       closed_loop tch S_rows ts (is_closed \<and> r \<in> set S_rows) st1)"

definition is_closed_body ::
  "('a, 'o) lstar_teacher \<Rightarrow> ('a, 'o) lstar \<Rightarrow> error + bool \<times> ('a, 'o) lstar" where
  "is_closed_body tch st =
     ebind (get_rows tch (elems (S st)) st) (\<lambda>(S_rows, st1).
       ebind (SA st1) (\<lambda>(sa, st2). closed_loop tch S_rows sa True st2))"

definition is_closed ::
  "('a, 'o) lstar_teacher \<Rightarrow> ('a, 'o) lstar \<Rightarrow> error + bool \<times> ('a, 'o) lstar" where
  "is_closed tch st =
     depends_on_S_E watch_is_closed (\<lambda>w st. st\<lparr>watch_is_closed := Some w\<rparr>)
       mem_is_closed (\<lambda>m st. st\<lparr>mem_is_closed := Some m\<rparr>) () (is_closed_body tch) st"

text \<open>\<^verbatim>\<open>itertools.combinations(xs, 2)\<close>: the pairs of positions \<open>i < j\<close>, in order.\<close>

fun combinations2 :: "'x list \<Rightarrow> ('x \<times> 'x) list" where
  "combinations2 [] = []"
| "combinations2 (x # xs) = map (Pair x) xs @ combinations2 xs"

text \<open>The comprehension that gathers the pairs of S with equal rows.\<close>

fun eqrows_of ::
  "('a, 'o) lstar_teacher \<Rightarrow> ('a list \<times> 'a list) list \<Rightarrow> ('a, 'o) lstar \<Rightarrow>
   error + ('a list \<times> 'a list) list \<times> ('a, 'o) lstar" where
  "eqrows_of tch [] st = Inr ([], st)"
| "eqrows_of tch ((s1, s2) # ps) st =
     ebind (get_row tch st s1) (\<lambda>(r1, st1).
       ebind (get_row tch st1 s2) (\<lambda>(r2, st2).
         ebind (eqrows_of tch ps st2) (\<lambda>(rest, st3).
           Inr ((if r1 = r2 then [(s1, s2)] else []) @ rest, st3))))"

text \<open>\<^verbatim>\<open>_is_consistent\<close>: the two nested loops run over the pairs with equal rows and, for
  each, over A; they are one loop over the product, in the same order.\<close>

fun consistent_loop ::
  "('a, 'o) lstar_teacher \<Rightarrow> (('a list \<times> 'a list) \<times> 'a list) list \<Rightarrow> bool \<Rightarrow> ('a, 'o) lstar \<Rightarrow>
   error + bool \<times> ('a, 'o) lstar" where
  "consistent_loop tch [] is_consistent st = Inr (is_consistent, st)"
| "consistent_loop tch (((s1, s2), a) # xs) is_consistent st =
     ebind (get_row tch st (s1 @ a)) (\<lambda>(r1, st1).
       ebind (get_row tch st1 (s2 @ a)) (\<lambda>(r2, st2).
         consistent_loop tch xs (is_consistent \<and> r1 = r2) st2))"

definition is_consistent_body ::
  "('a, 'o) lstar_teacher \<Rightarrow> ('a, 'o) lstar \<Rightarrow> error + bool \<times> ('a, 'o) lstar" where
  "is_consistent_body tch st =
     ebind (eqrows_of tch (combinations2 (elems (S st))) st) (\<lambda>(eqrows, st1).
       consistent_loop tch (List.product eqrows (A st1)) True st1)"

definition is_consistent ::
  "('a, 'o) lstar_teacher \<Rightarrow> ('a, 'o) lstar \<Rightarrow> error + bool \<times> ('a, 'o) lstar" where
  "is_consistent tch st =
     depends_on_S_E watch_is_consistent (\<lambda>w st. st\<lparr>watch_is_consistent := Some w\<rparr>)
       mem_is_consistent (\<lambda>m st. st\<lparr>mem_is_consistent := Some m\<rparr>) ()
       (is_consistent_body tch) st"

subsection \<open>\<^verbatim>\<open>step\<close>\<close>

text \<open>
  The consistency branch: the first pair \<open>(s1, s2)\<close> with equal rows and the first
  \<open>(a, e)\<close> of \<^verbatim>\<open>product(A, E)\<close> whose two answers differ; \<open>a + e\<close> is added to E and both
  loops are left. Nothing changes before that \<^verbatim>\<open>break\<close>, so the loops are a search for the
  first such element of the product.
\<close>

definition fix_consistency ::
  "('a, 'o) lstar_teacher \<Rightarrow> ('a, 'o) lstar \<Rightarrow> error + ('a, 'o) lstar" where
  "fix_consistency tch st =
     ebind (eqrows_of tch (combinations2 (elems (S st))) st) (\<lambda>(eqrows, st1).
       let AE = List.product (A st1) (elems (E st1)) in
       case List.find (\<lambda>((s1, s2), (a, e)).
                 query tch st1 (s1 @ a @ e) \<noteq> query tch st1 (s2 @ a @ e))
              (List.product eqrows AE) of
         None \<Rightarrow> Inr st1
       | Some ((s1, s2), (a, e)) \<Rightarrow> Inr (st1\<lparr>E := ns_add (a @ e) (E st1)\<rparr>))"

text \<open>
  The closure branch: the loop over \<^verbatim>\<open>product(S, A)\<close>, which is taken before the loop starts.
  The \<^verbatim>\<open>break\<close> after \<^verbatim>\<open>self.S.add(s + a)\<close> is commented out in the source, so the loop runs
  to its end.
\<close>

fun close_loop ::
  "('a, 'o) lstar_teacher \<Rightarrow> 'o list list \<Rightarrow> ('a list \<times> 'a list) list \<Rightarrow> ('a, 'o) lstar \<Rightarrow>
   error + ('a, 'o) lstar" where
  "close_loop tch S_rows [] st = Inr st"
| "close_loop tch S_rows ((s, a) # xs) st =
     ebind (get_row tch st (s @ a)) (\<lambda>(row_sa, st1).
       close_loop tch S_rows xs
         (if row_sa \<notin> set S_rows then st1\<lparr>S := ns_add (s @ a) (S st1)\<rparr> else st1))"

definition fix_closedness ::
  "('a, 'o) lstar_teacher \<Rightarrow> ('a, 'o) lstar \<Rightarrow> error + ('a, 'o) lstar" where
  "fix_closedness tch st =
     ebind (get_rows tch (elems (S st)) st) (\<lambda>(S_rows, st1).
       close_loop tch S_rows (List.product (elems (S st1)) (A st1)) st1)"

definition step :: "('a, 'o) lstar_teacher \<Rightarrow> ('a, 'o) lstar \<Rightarrow> error + ('a, 'o) lstar" where
  "step tch st =
     ebind (is_consistent tch st) (\<lambda>(consistent, st1).
       ebind (is_closed tch st1) (\<lambda>(closed, st2).
         ebind (if \<not> consistent then fix_consistency tch st2 else Inr st2) (\<lambda>st3.
           if \<not> closed then fix_closedness tch st3 else Inr st3)))"

subsection \<open>\<^verbatim>\<open>build_dfa\<close>\<close>

text \<open>The decimal numeral of a natural number, for the state names \<^verbatim>\<open>f's{n + 1}'\<close>.\<close>

fun string_of_nat :: "nat \<Rightarrow> string" where
  "string_of_nat n =
     (if n < 10 then [char_of (48 + n)]
      else string_of_nat (n div 10) @ [char_of (48 + n mod 10)])"

declare string_of_nat.simps [simp del]

text \<open>The unpacking \<^verbatim>\<open>[a for (a,) in self.A]\<close>, which raises on a word that is not one symbol.\<close>

fun unpack_A :: "'a list list \<Rightarrow> error + 'a list" where
  "unpack_A [] = Inr []"
| "unpack_A ([a] # rest) = ebind (unpack_A rest) (\<lambda>as. Inr (a # as))"
| "unpack_A (w # rest) = Inl ValueError"

text \<open>
  The body of \<^verbatim>\<open>if sa_row in states.keys():\<close>. The \<^verbatim>\<open>try\<close> with its bare \<^verbatim>\<open>except: pass\<close>
  swallows every exception of the lookup \<^verbatim>\<open>states[s_row]\<close> and of \<^verbatim>\<open>add_edge\<close>, leaving the
  states as they were.
\<close>

definition put_edge ::
  "('o list \<rightharpoonup> ('a, 'o, 'o list) mealy_state) \<Rightarrow> 'o list \<Rightarrow> 'a \<Rightarrow> 'o \<Rightarrow> 'o list \<Rightarrow>
   ('o list \<rightharpoonup> ('a, 'o, 'o list) mealy_state)" where
  "put_edge sts s_row a cur_output sa_row =
     (case sts sa_row of
        None \<Rightarrow> sts
      | Some target \<Rightarrow>
          (case sts s_row of
             None \<Rightarrow> sts
           | Some q \<Rightarrow>
               (case add_edge q a cur_output sa_row False of
                  Inl e \<Rightarrow> sts
                | Inr q' \<Rightarrow> sts(s_row \<mapsto> q'))))"

text \<open>The inner loop over A for one \<open>s\<close>.\<close>

fun edges_loop ::
  "('a, 'o) lstar_teacher \<Rightarrow> 'a list \<Rightarrow> 'o list \<Rightarrow> 'a list \<Rightarrow>
   ('o list \<rightharpoonup> ('a, 'o, 'o list) mealy_state) \<Rightarrow> ('a, 'o) lstar \<Rightarrow>
   error + ('o list \<rightharpoonup> ('a, 'o, 'o list) mealy_state) \<times> ('a, 'o) lstar" where
  "edges_loop tch s s_row [] sts st = Inr (sts, st)"
| "edges_loop tch s s_row (a # as) sts st =
     ebind (get_row tch st (s @ [a])) (\<lambda>(sa_row, st1).
       edges_loop tch s s_row as (put_edge sts s_row a (query tch st1 (s @ [a])) sa_row) st1)"

text \<open>
  The outer loop over S. \<^verbatim>\<open>visited_rows\<close> is appended to only in the \<^verbatim>\<open>else\<close> branch of
  \<^verbatim>\<open>if s_row not in visited_rows\<close>, as in the source.
\<close>

fun states_loop ::
  "('a, 'o) lstar_teacher \<Rightarrow> 'a list \<Rightarrow> 'a list list \<Rightarrow> 'o list list \<Rightarrow>
   ('o list \<rightharpoonup> ('a, 'o, 'o list) mealy_state) \<Rightarrow> ('a, 'o) lstar \<Rightarrow>
   error + ('o list \<rightharpoonup> ('a, 'o, 'o list) mealy_state) \<times> ('a, 'o) lstar" where
  "states_loop tch as [] visited_rows sts st = Inr (sts, st)"
| "states_loop tch as (s # ss) visited_rows sts st =
     ebind (get_row tch st s) (\<lambda>(s_row, st1).
       if s_row \<notin> set visited_rows then
         ebind (edges_loop tch s s_row as sts st1) (\<lambda>(sts', st2).
           states_loop tch as ss visited_rows sts' st2)
       else states_loop tch as ss (visited_rows @ [s_row]) sts st1)"

text \<open>
  The two dictionary comprehensions: the name \<^verbatim>\<open>f's{n + 1}'\<close> of the \<open>n\<close>-th row of
  \<^verbatim>\<open>state_rows\<close>, and a fresh \<^verbatim>\<open>MealyState\<close> of that name for each row.
\<close>

definition state_names :: "'o list list \<Rightarrow> ('o list \<rightharpoonup> string)" where
  "state_names state_rows =
     map_of (map (\<lambda>(n, state_row). (state_row, CHR ''s'' # string_of_nat (n + 1)))
               (enumerate 0 state_rows))"

definition new_states ::
  "('o list \<rightharpoonup> string) \<Rightarrow> ('o list \<rightharpoonup> ('a, 'o, 'o list) mealy_state)" where
  "new_states names = (\<lambda>state_row. map_option MealyState (names state_row))"

definition build_dfa ::
  "('a, 'o) lstar_teacher \<Rightarrow> ('a, 'o) lstar \<Rightarrow> error + ('a, 'o) hypothesis \<times> ('a, 'o) lstar" where
  "build_dfa tch st =
     ebind (get_rows tch (elems (S st)) st) (\<lambda>(rows, st1).
       let state_rows = remdups rows in
       ebind (get_row tch st1 []) (\<lambda>(initial_state_row, st2).
         let sts = new_states (state_names state_rows)
         in case sts initial_state_row of
              None \<Rightarrow> Inl KeyError
            | Some initial \<Rightarrow>
                ebind (unpack_A (A st2)) (\<lambda>as.
                  ebind (states_loop tch as (elems (S st2)) [] sts st2) (\<lambda>(sts', st3).
                    Inr (\<lparr>initial_state = initial_state_row, states = sts'\<rparr>, st3)))))"

subsection \<open>\<^verbatim>\<open>run\<close>\<close>

text \<open>The loop that adds the prefixes \<^verbatim>\<open>counterexample[0:i]\<close>, \<open>i\<close> from 1 to the length, to S.\<close>

definition add_prefixes :: "'a list \<Rightarrow> ('a, 'o) lstar \<Rightarrow> ('a, 'o) lstar" where
  "add_prefixes counterexample st =
     fold (\<lambda>i st'. st'\<lparr>S := ns_add (take i counterexample) (S st')\<rparr>)
       [1..<length counterexample + 1] st"

text \<open>
  The inner loop \<^verbatim>\<open>while not (self._is_closed() and self._is_consistent()): self.step()\<close>.
  It need not end, so it takes fuel: \<open>None\<close> is "more rounds than the fuel". Python's
  \<^verbatim>\<open>and\<close> asks for consistency only of a closed table.
\<close>

fun refine ::
  "nat \<Rightarrow> ('a, 'o) lstar_teacher \<Rightarrow> ('a, 'o) lstar \<Rightarrow> (error + ('a, 'o) lstar) option" where
  "refine 0 tch st = None"
| "refine (Suc n) tch st =
     (case is_closed tch st of
        Inl e \<Rightarrow> Some (Inl e)
      | Inr (closed, st1) \<Rightarrow>
          (case (if closed then is_consistent tch st1 else Inr (False, st1)) of
             Inl e \<Rightarrow> Some (Inl e)
           | Inr (ready, st2) \<Rightarrow>
               if ready then Some (Inr st2)
               else (case step tch st2 of
                       Inl e \<Rightarrow> Some (Inl e)
                     | Inr st3 \<Rightarrow> refine n tch st3)))"

text \<open>
  \<^verbatim>\<open>run\<close> with its default arguments (no printing, no rendering, no callback, no
  checkpoints). The fuel bounds the rounds of the outer loop and, in each round, those of
  the inner loop. The statements between the equivalence query and the prefix loop only
  print; the hypothesis they reset and run is dropped afterwards.
\<close>

fun run ::
  "nat \<Rightarrow> ('a, 'o) lstar_teacher \<Rightarrow> ('a, 'o) lstar \<Rightarrow>
   (error + ('a, 'o) hypothesis \<times> ('a, 'o) lstar) option" where
  "run 0 tch st = None"
| "run (Suc n) tch st =
     (case refine (Suc n) tch st of
        None \<Rightarrow> None
      | Some (Inl e) \<Rightarrow> Some (Inl e)
      | Some (Inr st1) \<Rightarrow>
          (case build_dfa tch st1 of
             Inl e \<Rightarrow> Some (Inl e)
           | Inr (hypothesis, st2) \<Rightarrow>
               (case equivalence_query tch hypothesis of
                  (True, counterexample) \<Rightarrow> Some (Inr (hypothesis, st2))
                | (False, counterexample) \<Rightarrow> run n tch (add_prefixes counterexample st2))))"

declare refine.simps [simp del] run.simps [simp del]

subsection \<open>What the memoized methods compute\<close>

text \<open>
  The bodies of the memoized methods as functions of the table alone; the caches are
  correct when they hold these values.
\<close>

definition SA_val :: "('a, 'o) lstar \<Rightarrow> 'a list list" where
  "SA_val st =
     list_union (remdups (map (\<lambda>(s, a). s @ a) (List.product (elems (S st)) (A st)))) (A st)"

definition SUSA_val :: "('a, 'o) lstar \<Rightarrow> 'a list list" where
  "SUSA_val st = list_union (elems (S st)) (SA_val st)"

definition row_val :: "('a, 'o) lstar_teacher \<Rightarrow> ('a, 'o) lstar \<Rightarrow> 'a list \<Rightarrow> 'o list" where
  "row_val tch st s = map (\<lambda>e. member_query tch (s @ e)) (elems (E st))"

definition closed_val :: "('a, 'o) lstar_teacher \<Rightarrow> ('a, 'o) lstar \<Rightarrow> bool" where
  "closed_val tch st =
     list_all (\<lambda>t. row_val tch st t \<in> set (map (row_val tch st) (elems (S st)))) (SA_val st)"

definition eqrows_val ::
  "('a, 'o) lstar_teacher \<Rightarrow> ('a, 'o) lstar \<Rightarrow> ('a list \<times> 'a list) list" where
  "eqrows_val tch st =
     filter (\<lambda>(s1, s2). row_val tch st s1 = row_val tch st s2) (combinations2 (elems (S st)))"

definition consistent_val :: "('a, 'o) lstar_teacher \<Rightarrow> ('a, 'o) lstar \<Rightarrow> bool" where
  "consistent_val tch st =
     list_all (\<lambda>((s1, s2), a). row_val tch st (s1 @ a) = row_val tch st (s2 @ a))
       (List.product (eqrows_val tch st) (A st))"

text \<open>
  A cache watched through the counter of S is sound when the counter it saw is not ahead of
  the set's and, if it is the set's, the stored value is the one the body computes. A
  cache watched through both counters is sound likewise, for every stored entry.
\<close>

definition cache_S_ok :: "int option \<Rightarrow> 'r option \<Rightarrow> int \<Rightarrow> 'r \<Rightarrow> bool" where
  "cache_S_ok watch mem counter v =
     (case watch of
        None \<Rightarrow> True
      | Some c \<Rightarrow> c \<le> counter \<and> (c = counter \<longrightarrow> mem = Some v))"

definition cache_SE_ok ::
  "(int \<times> int) option \<Rightarrow> ('k \<rightharpoonup> 'r) option \<Rightarrow> int \<times> int \<Rightarrow> ('k \<Rightarrow> 'r \<Rightarrow> bool) \<Rightarrow> bool" where
  "cache_SE_ok watch mem counters good =
     (case watch of
        None \<Rightarrow> True
      | Some c \<Rightarrow>
          fst c \<le> fst counters \<and> snd c \<le> snd counters \<and>
          (c = counters \<longrightarrow>
             (case mem of None \<Rightarrow> False | Some m \<Rightarrow> \<forall>k v. m k = Some v \<longrightarrow> good k v)))"

definition coherent :: "('a, 'o) lstar_teacher \<Rightarrow> ('a, 'o) lstar \<Rightarrow> bool" where
  "coherent tch st =
     (0 < change_counter (S st) \<and> 0 \<le> change_counter (E st) \<and>
      cache_S_ok (watch_SA st) (mem_SA st) (change_counter (S st)) (SA_val st) \<and>
      cache_S_ok (watch_SUSA st) (mem_SUSA st) (change_counter (S st)) (SUSA_val st) \<and>
      cache_SE_ok (watch_get_row st) (mem_get_row st)
        (change_counter (S st), change_counter (E st))
        (\<lambda>s r. s \<in> set (SUSA_val st) \<and> r = row_val tch st s) \<and>
      cache_SE_ok (watch_is_closed st) (mem_is_closed st)
        (change_counter (S st), change_counter (E st)) (\<lambda>u b. b = closed_val tch st) \<and>
      cache_SE_ok (watch_is_consistent st) (mem_is_consistent st)
        (change_counter (S st), change_counter (E st)) (\<lambda>u b. b = consistent_val tch st))"

text \<open>Two learners with the same table: the same S, E, T and A (the caches may differ).\<close>

definition same_table :: "('a, 'o) lstar \<Rightarrow> ('a, 'o) lstar \<Rightarrow> bool" where
  "same_table st' st = (S st' = S st \<and> E st' = E st \<and> T st' = T st \<and> A st' = A st)"

text \<open>
  A word that a run of the closure branch adds to S: \<open>s + a\<close> for a pair of the product
  whose row is not among \<open>S_rows\<close>.
\<close>

definition new_words ::
  "('a, 'o) lstar_teacher \<Rightarrow> ('a, 'o) lstar \<Rightarrow> 'o list list \<Rightarrow> ('a list \<times> 'a list) list \<Rightarrow>
   'a list list" where
  "new_words tch st S_rows xs =
     map (\<lambda>(s, a). s @ a) (filter (\<lambda>(s, a). row_val tch st (s @ a) \<notin> set S_rows) xs)"

text \<open>The states the two loops of \<^verbatim>\<open>build_dfa\<close> end with, and the hypothesis it returns.\<close>

definition edges_val ::
  "('a, 'o) lstar_teacher \<Rightarrow> ('a, 'o) lstar \<Rightarrow> 'a list \<Rightarrow> 'a list \<Rightarrow>
   ('o list \<rightharpoonup> ('a, 'o, 'o list) mealy_state) \<Rightarrow> ('o list \<rightharpoonup> ('a, 'o, 'o list) mealy_state)" where
  "edges_val tch st s as sts =
     fold (\<lambda>a sts'. put_edge sts' (row_val tch st s) a (member_query tch (s @ [a]))
                       (row_val tch st (s @ [a]))) as sts"

definition states_val ::
  "('a, 'o) lstar_teacher \<Rightarrow> ('a, 'o) lstar \<Rightarrow> 'a list \<Rightarrow> 'a list list \<Rightarrow>
   ('o list \<rightharpoonup> ('a, 'o, 'o list) mealy_state) \<Rightarrow> ('o list \<rightharpoonup> ('a, 'o, 'o list) mealy_state)" where
  "states_val tch st as ss sts = fold (\<lambda>s sts'. edges_val tch st s as sts') ss sts"

definition hypothesis_val :: "('a, 'o) lstar_teacher \<Rightarrow> ('a, 'o) lstar \<Rightarrow> ('a, 'o) hypothesis" where
  "hypothesis_val tch st =
     \<lparr>initial_state = row_val tch st [],
      states = states_val tch st (concat (A st)) (elems (S st))
                 (new_states (state_names (remdups (map (row_val tch st) (elems (S st))))))\<rparr>"

text \<open>The edge of a state of the store on an input, if both exist.\<close>

definition edge_of ::
  "('k \<rightharpoonup> ('a, 'o, 'k) mealy_state) \<Rightarrow> 'k \<Rightarrow> 'a \<Rightarrow> ('k \<times> 'o) option" where
  "edge_of sts r a = (case sts r of None \<Rightarrow> None | Some q \<Rightarrow> edges q a)"

text \<open>
  The first word of a list of access words whose row is \<open>r\<close> and whose \<open>a\<close>-successor has
  the row of a state: its successor row and its answer.
\<close>

definition first_edge ::
  "('a, 'o) lstar_teacher \<Rightarrow> ('a, 'o) lstar \<Rightarrow> 'a list list \<Rightarrow> 'o list \<Rightarrow> 'a \<Rightarrow>
   ('o list \<times> 'o) option" where
  "first_edge tch st ss r a =
     map_option (\<lambda>s. (row_val tch st (s @ [a]), member_query tch (s @ [a])))
       (List.find (\<lambda>s. row_val tch st s = r \<and>
                        row_val tch st (s @ [a]) \<in> set (map (row_val tch st) (elems (S st)))) ss)"

text \<open>
  The table invariant of the learner: the caches are sound, the empty word is in S, A is
  the list of one-symbol words of the teacher's alphabet, each of them in E.
\<close>

definition lstar_inv :: "('a, 'o) lstar_teacher \<Rightarrow> ('a, 'o) lstar \<Rightarrow> bool" where
  "lstar_inv tch st =
     (coherent tch st \<and> [] \<in> set (elems (S st)) \<and>
      A st = remdups (map (\<lambda>x. [x]) (get_alphabet tch)) \<and>
      (\<forall>x \<in> set (get_alphabet tch). [x] \<in> set (elems (E st))))"

text \<open>Two learners with the same row cache, and with the same caches of the two verdicts.\<close>

definition same_rows :: "('a, 'o) lstar \<Rightarrow> ('a, 'o) lstar \<Rightarrow> bool" where
  "same_rows st' st = (mem_get_row st' = mem_get_row st \<and> watch_get_row st' = watch_get_row st)"

definition same_verdicts :: "('a, 'o) lstar \<Rightarrow> ('a, 'o) lstar \<Rightarrow> bool" where
  "same_verdicts st' st =
     (mem_is_closed st' = mem_is_closed st \<and> watch_is_closed st' = watch_is_closed st \<and>
      mem_is_consistent st' = mem_is_consistent st \<and> watch_is_consistent st' = watch_is_consistent st)"

text \<open>
  The row the spec describes: each answer projected to its last \<open>|e|\<close> symbols, the part
  of the output word that belongs to \<open>e\<close>.
\<close>

definition projected_row ::
  "('a, 'b list) lstar_teacher \<Rightarrow> ('a, 'b list) lstar \<Rightarrow> 'a list \<Rightarrow> 'b list list" where
  "projected_row tch st s = map (\<lambda>e. drop (length s) (member_query tch (s @ e))) (elems (E st))"

text \<open>
  One operation of the learner on its table: a refinement step, the construction of a
  hypothesis, the integration of a counterexample, one of the two checks that \<^verbatim>\<open>run\<close>
  makes, or a row lookup.
\<close>

inductive lstar_op ::
  "('a, 'o) lstar_teacher \<Rightarrow> ('a, 'o) lstar \<Rightarrow> ('a, 'o) lstar \<Rightarrow> bool" for tch where
  op_step: "step tch st = Inr st' \<Longrightarrow> lstar_op tch st st'"
| op_build_dfa: "build_dfa tch st = Inr (h, st') \<Longrightarrow> lstar_op tch st st'"
| op_counterexample: "lstar_op tch st (add_prefixes w st)"
| op_is_closed: "is_closed tch st = Inr (b, st') \<Longrightarrow> lstar_op tch st st'"
| op_is_consistent: "is_consistent tch st = Inr (b, st') \<Longrightarrow> lstar_op tch st st'"
| op_get_row: "get_row tch st s = Inr (r, st') \<Longrightarrow> lstar_op tch st st'"

text \<open>The learners that a freshly constructed learner can become.\<close>

definition lstar_reachable :: "('a, 'o) lstar_teacher \<Rightarrow> ('a, 'o) lstar \<Rightarrow> bool" where
  "lstar_reachable tch st = (lstar_op tch)\<^sup>*\<^sup>* (lstar_init tch) st"

section \<open>The TTT learner\<close>

subsection \<open>Discrimination tree\<close>

text \<open>
  Modelled from the spec: the class \<^verbatim>\<open>DTree\<close> and its nodes live with \<^verbatim>\<open>TTTAbstractLearner\<close>,
  which is not among the sources. Section 3: "A rooted binary-or-k-ary tree whose inner
  nodes are labeled with a suffix and whose leaves correspond one-to-one with currently
  known states. A node's children are keyed by possible outputs". A leaf holds a state; an
  inner node holds its suffix, its \<^verbatim>\<open>temporary\<close> mark and its children, a dictionary from
  responses to nodes, kept in insertion order. A state is held by reference: \<open>nat\<close> is the
  identity of the \<^verbatim>\<open>State\<close> object.
\<close>

datatype ('a, 'o) dnode =
  Leaf nat
| Inner "'a list" bool "('o \<times> ('a, 'o) dnode) list"

text \<open>The states at the leaves of a node, from left to right.\<close>

fun leaves :: "('a, 'o) dnode \<Rightarrow> nat list"
  and leaves_children :: "('o \<times> ('a, 'o) dnode) list \<Rightarrow> nat list" where
  "leaves (Leaf s) = [s]"
| "leaves (Inner v temporary cs) = leaves_children cs"
| "leaves_children [] = []"
| "leaves_children ((k, c) # cs) = leaves c @ leaves_children cs"

text \<open>
  \<^verbatim>\<open>node.add(response, child)\<close>: the dictionary assignment \<^verbatim>\<open>children[response] = child\<close>. A
  leaf has no children; adding to one leaves it as it is.
\<close>

fun dict_set :: "('k \<times> 'v) list \<Rightarrow> 'k \<Rightarrow> 'v \<Rightarrow> ('k \<times> 'v) list" where
  "dict_set [] k v = [(k, v)]"
| "dict_set ((k', v') # kvs) k v =
     (if k' = k then (k, v) # kvs else (k', v') # dict_set kvs k v)"

fun node_add :: "('a, 'o) dnode \<Rightarrow> 'o \<Rightarrow> ('a, 'o) dnode \<Rightarrow> ('a, 'o) dnode" where
  "node_add (Leaf s) response child = Leaf s"
| "node_add (Inner v temporary cs) response child = Inner v temporary (dict_set cs response child)"

text \<open>
  \<^verbatim>\<open>DTree.getLeaf(state)\<close> followed by \<^verbatim>\<open>leaf.replace(node)\<close>: the leaf that holds the state is
  replaced, where it hangs, by the node. Where it is used a state is held by one leaf at
  most; were there several, all of them would be replaced here.
\<close>

fun replace_leaf :: "nat \<Rightarrow> ('a, 'o) dnode \<Rightarrow> ('a, 'o) dnode \<Rightarrow> ('a, 'o) dnode"
  and replace_leaf_children ::
    "nat \<Rightarrow> ('a, 'o) dnode \<Rightarrow> ('o \<times> ('a, 'o) dnode) list \<Rightarrow> ('o \<times> ('a, 'o) dnode) list" where
  "replace_leaf s new (Leaf s') = (if s' = s then new else Leaf s')"
| "replace_leaf s new (Inner v temporary cs) = Inner v temporary (replace_leaf_children s new cs)"
| "replace_leaf_children s new [] = []"
| "replace_leaf_children s new ((k, c) # cs) =
     (k, replace_leaf s new c) # replace_leaf_children s new cs"

subsection \<open>State of the learner\<close>

text \<open>
  The fields of \<^verbatim>\<open>TTTMealyLearner\<close>. \<open>S_ttt\<close> is the dictionary \<^verbatim>\<open>self.S\<close> from access
  sequences to states, in insertion order; \<open>DTree\<close> is \<^verbatim>\<open>self.DTree.root\<close>, \<open>None\<close> for a
  missing root; \<open>A_ttt\<close> is \<^verbatim>\<open>self.A\<close>. The \<^verbatim>\<open>State\<close> objects live in \<open>objects\<close>, addressed by
  their identity, and \<open>next_object\<close> is the identity the next \<^verbatim>\<open>State(...)\<close> gets: a new
  object differs from every object made before.
\<close>

record ('a, 'o) ttt =
  S_ttt :: "('a list \<times> nat) list"
  DTree :: "('a, 'o) dnode option"
  A_ttt :: "'a list list"
  objects :: "nat \<Rightarrow> ('a, 'o, nat) mealy_state"
  next_object :: nat

type_synonym ('a, 'o) ttt_hypothesis = "('a, 'o, nat) mealy_machine"

type_synonym ('a, 'o) ttt_teacher = "('a, 'o, ('a, 'o) ttt_hypothesis) teacher"

text \<open>\<^verbatim>\<open>State(name)\<close>: a new object; the result is its identity and the learner that holds it.\<close>

definition new_State :: "string \<Rightarrow> ('a, 'o) ttt \<Rightarrow> nat \<times> ('a, 'o) ttt" where
  "new_State n st =
     (next_object st,
      st\<lparr>objects := (objects st)(next_object st := MealyState n),
         next_object := next_object st + 1\<rparr>)"

text \<open>
  \<^verbatim>\<open>__init__\<close>: S maps the empty word to the state \<^verbatim>\<open>s0\<close>. Modelled from the spec: the rest of
  the construction is in \<^verbatim>\<open>TTTAbstractLearner.__init__\<close>, which is not among the sources.
  Section 9: "A correct initialization is: root = leaf(q0)"; A holds the one-symbol words
  of the teacher's alphabet, as in the L* learner.
\<close>

definition ttt_init :: "('a, 'o) ttt_teacher \<Rightarrow> ('a, 'o) ttt" where
  "ttt_init tch =
     \<lparr>S_ttt = [([], 0)],
      DTree = Some (Leaf 0),
      A_ttt = remdups (map (\<lambda>x. [x]) (get_alphabet tch)),
      objects = (\<lambda>i. MealyState ''s0''),
      next_object = 1\<rparr>"

text \<open>
  Modelled from the spec: \<^verbatim>\<open>self.query\<close> of the TTT learner is defined in
  \<^verbatim>\<open>TTTAbstractLearner\<close>, which is not among the sources. Section 4.4: "query SUL on \<open>w\<cdot>v\<close>".
  What the teacher answers has the type \<open>'o\<close>; it is never \<^verbatim>\<open>None\<close>.
\<close>

definition ttt_query :: "('a, 'o) ttt_teacher \<Rightarrow> 'a list \<Rightarrow> 'o" where
  "ttt_query tch w = member_query tch w"

subsection \<open>\<^verbatim>\<open>sift\<close>\<close>

text \<open>
  The loop of \<^verbatim>\<open>sift\<close>: at an inner node the response to \<open>sequence + suffix\<close> is looked up among the
  children, as it is; the walk ends at a leaf (\<open>Reached\<close>) or where the response is no key
  (\<open>Fell\<close>, with the responses from the root down to the missing one, which tell where
  \<^verbatim>\<open>prev_dtree_node\<close> hangs).
\<close>

datatype 'o walk_result = Reached nat | Fell "'o list"

fun walk :: "('a list \<Rightarrow> 'o) \<Rightarrow> 'a list \<Rightarrow> ('a, 'o) dnode \<Rightarrow> 'o walk_result"
  and walk_children ::
    "('a list \<Rightarrow> 'o) \<Rightarrow> 'a list \<Rightarrow> ('o \<times> ('a, 'o) dnode) list \<Rightarrow> 'o \<Rightarrow> 'o walk_result" where
  "walk q sequence (Leaf s) = Reached s"
| "walk q sequence (Inner suffix temporary cs) =
     (let response = q (sequence @ suffix) in
      case walk_children q sequence cs response of
        Reached s \<Rightarrow> Reached s
      | Fell p \<Rightarrow> Fell (response # p))"
| "walk_children q sequence [] response = Fell []"
| "walk_children q sequence ((k, c) # cs) response =
     (if k = response then walk q sequence c else walk_children q sequence cs response)"

text \<open>
  \<^verbatim>\<open>prev_dtree_node.add(response, new_dtree_node)\<close>, with \<^verbatim>\<open>prev_dtree_node\<close> found again by the
  responses that led to it.
\<close>

fun attach :: "'o list \<Rightarrow> ('a, 'o) dnode \<Rightarrow> ('a, 'o) dnode \<Rightarrow> ('a, 'o) dnode"
  and attach_children ::
    "'o \<Rightarrow> 'o list \<Rightarrow> ('a, 'o) dnode \<Rightarrow> ('o \<times> ('a, 'o) dnode) list \<Rightarrow> ('o \<times> ('a, 'o) dnode) list" where
  "attach p new (Leaf s) = Leaf s"
| "attach [] new (Inner v temporary cs) = Inner v temporary cs"
| "attach [response] new (Inner v temporary cs) = node_add (Inner v temporary cs) response new"
| "attach (r # r' # p) new (Inner v temporary cs) =
     Inner v temporary (attach_children r (r' # p) new cs)"
| "attach_children r p new [] = []"
| "attach_children r p new ((k, c) # cs) =
     (if k = r then (k, attach p new c) # cs else (k, c) # attach_children r p new cs)"

text \<open>
  \<^verbatim>\<open>sift\<close>. With no root the loop is not entered and \<^verbatim>\<open>assert response is not None\<close> fails. When
  the walk falls off the tree, the sequence must not be a key of S; a state named after the
  size of S and a leaf for it are made, S maps the sequence to the state, and the leaf is
  added under the response.
\<close>

definition sift ::
  "('a, 'o) ttt_teacher \<Rightarrow> ('a, 'o) ttt \<Rightarrow> 'a list \<Rightarrow> error + nat \<times> ('a, 'o) ttt" where
  "sift tch st sequence =
     (case DTree st of
        None \<Rightarrow> Inl AssertionError
      | Some root \<Rightarrow>
          (case walk (ttt_query tch) sequence root of
             Reached s \<Rightarrow> Inr (s, st)
           | Fell p \<Rightarrow>
               if sequence \<in> set (map fst (S_ttt st)) then Inl AssertionError
               else
                 (let (new_state, st1) =
                        new_State (CHR ''s'' # string_of_nat (length (S_ttt st))) st;
                      new_dtree_node = Leaf new_state;
                      st2 = st1\<lparr>S_ttt := dict_set (S_ttt st1) sequence new_state\<rparr>
                  in Inr (new_state, st2\<lparr>DTree := Some (attach p new_dtree_node root)\<rparr>))))"

subsection \<open>\<^verbatim>\<open>construct_hypothesis\<close>\<close>

text \<open>A dictionary lookup \<^verbatim>\<open>d[k]\<close>, and the keys of S.\<close>

definition dict_get :: "('k \<times> 'v) list \<Rightarrow> 'k \<Rightarrow> error + 'v" where
  "dict_get kvs k = (case map_of kvs k of None \<Rightarrow> Inl KeyError | Some v \<Rightarrow> Inr v)"

definition keys_S :: "('a, 'o) ttt \<Rightarrow> 'a list set" where
  "keys_S st = set (map fst (S_ttt st))"

text \<open>\<^verbatim>\<open>state.add_edge(a, output, target, override=True)\<close> on the object of a state.\<close>

definition object_add_edge ::
  "('a, 'o) ttt \<Rightarrow> nat \<Rightarrow> 'a \<Rightarrow> 'o \<Rightarrow> nat \<Rightarrow> error + ('a, 'o) ttt" where
  "object_add_edge st q a out q' =
     (case add_edge (objects st q) a out q' True of
        Inl e \<Rightarrow> Inl e
      | Inr obj \<Rightarrow> Inr (st\<lparr>objects := (objects st)(q := obj)\<rparr>))"

text \<open>The loop over A for one item of S; \<^verbatim>\<open>a[0]\<close> raises on an empty tuple.\<close>

fun transitions_A ::
  "('a, 'o) ttt_teacher \<Rightarrow> 'a list \<Rightarrow> nat \<Rightarrow> 'a list list \<Rightarrow> ('a, 'o) ttt \<Rightarrow>
   error + ('a, 'o) ttt" where
  "transitions_A tch access_seq cur_state [] st = Inr st"
| "transitions_A tch access_seq cur_state (a # as) st =
     ebind (sift tch st (access_seq @ a)) (\<lambda>(next_state, st1).
       let output = ttt_query tch (access_seq @ a) in
       case a of
         [] \<Rightarrow> Inl IndexError
       | x # rest \<Rightarrow>
           ebind (object_add_edge st1 cur_state x output next_state) (\<lambda>st2.
             transitions_A tch access_seq cur_state as st2))"

text \<open>The loop over \<^verbatim>\<open>list(self.S.items())\<close>, a copy taken before the loop.\<close>

fun transitions_S ::
  "('a, 'o) ttt_teacher \<Rightarrow> ('a list \<times> nat) list \<Rightarrow> ('a, 'o) ttt \<Rightarrow> error + ('a, 'o) ttt" where
  "transitions_S tch [] st = Inr st"
| "transitions_S tch ((access_seq, cur_state) # items) st =
     ebind (transitions_A tch access_seq cur_state (A_ttt st) st) (\<lambda>st1.
       transitions_S tch items st1)"

text \<open>
  The loop \<^verbatim>\<open>while items_added\<close>, which runs again as long as a pass made S grow. It need not
  end, so it takes fuel: \<open>None\<close> is "more passes than the fuel".
\<close>

fun add_transitions ::
  "nat \<Rightarrow> ('a, 'o) ttt_teacher \<Rightarrow> nat \<Rightarrow> ('a, 'o) ttt \<Rightarrow> (error + ('a, 'o) ttt) option" where
  "add_transitions 0 tch n st = None"
| "add_transitions (Suc fuel) tch n st =
     (case transitions_S tch (S_ttt st) st of
        Inl e \<Rightarrow> Some (Inl e)
      | Inr st1 \<Rightarrow>
          (let n2 = length (S_ttt st1) in
           if n \<noteq> n2 then add_transitions fuel tch n2 st1 else Some (Inr st1)))"

text \<open>
  The spanning-tree pass over \<^verbatim>\<open>self.S.items()\<close>: for a non-empty access sequence the state
  of \<^verbatim>\<open>access_seq[0:-1]\<close> is looked up in S, which raises a \<open>KeyError\<close> when it is no key.
\<close>

fun spanning_tree ::
  "('a, 'o) ttt_teacher \<Rightarrow> ('a list \<times> nat) list \<Rightarrow> ('a, 'o) ttt \<Rightarrow> error + ('a, 'o) ttt" where
  "spanning_tree tch [] st = Inr st"
| "spanning_tree tch ((access_seq, state) # items) st =
     (if length access_seq > 0 then
        (let ancestor_acc_seq = butlast access_seq in
         ebind (dict_get (S_ttt st) ancestor_acc_seq) (\<lambda>ancestor_state.
           let a = last access_seq;
               output = ttt_query tch (ancestor_acc_seq @ [a])
           in ebind (object_add_edge st ancestor_state a output state) (\<lambda>st1.
                spanning_tree tch items st1)))
      else spanning_tree tch items st)"

definition construct_hypothesis ::
  "nat \<Rightarrow> ('a, 'o) ttt_teacher \<Rightarrow> ('a, 'o) ttt \<Rightarrow>
   (error + ('a, 'o) ttt_hypothesis \<times> ('a, 'o) ttt) option" where
  "construct_hypothesis fuel tch st =
     (case dict_get (S_ttt st) [] of
        Inl e \<Rightarrow> Some (Inl e)
      | Inr initial \<Rightarrow>
          (case add_transitions fuel tch (length (S_ttt st)) st of
             None \<Rightarrow> None
           | Some (Inl e) \<Rightarrow> Some (Inl e)
           | Some (Inr st1) \<Rightarrow>
               (case spanning_tree tch (S_ttt st1) st1 of
                  Inl e \<Rightarrow> Some (Inl e)
                | Inr st2 \<Rightarrow>
                    Some (Inr (\<lparr>initial_state = initial,
                                 states = (\<lambda>q. if q < next_object st2 then Some (objects st2 q)
                                                else None)\<rparr>, st2)))))"

subsection \<open>\<^verbatim>\<open>process_counterexample\<close>\<close>

text \<open>
  Modelled from the spec: \<^verbatim>\<open>decompose\<close>, \<^verbatim>\<open>get_state_from_sequence\<close>,
  \<^verbatim>\<open>get_access_sequence_from_state\<close> and \<^verbatim>\<open>get_access_sequence\<close> are methods of
  \<^verbatim>\<open>TTTAbstractLearner\<close>, which is not among the sources. Section 4.4 says what they answer
  (the split \<open>(u, a, v)\<close> of the counterexample, the state a word reaches in the hypothesis, the
  access sequence of a state and of the state a word reaches); they read the learner and are
  parameters here.
\<close>

record ('a, 'o) ttt_helpers =
  decompose :: "('a, 'o) ttt \<Rightarrow> 'a list \<Rightarrow> 'a list \<times> 'a list \<times> 'a list"
  get_state_from_sequence :: "('a, 'o) ttt \<Rightarrow> 'a list \<Rightarrow> nat"
  get_access_sequence_from_state :: "('a, 'o) ttt \<Rightarrow> nat \<Rightarrow> 'a list"
  get_access_sequence :: "('a, 'o) ttt \<Rightarrow> 'a list \<Rightarrow> 'a list"

text \<open>
  \<^verbatim>\<open>process_counterexample\<close>. The new access sequence must not be a key of S; the leaf of
  \<open>q_old\<close> is replaced by a new temporary inner node with the suffix \<open>v\<close>; the two responses
  must differ; the new leaf and the old one are added under them. A tree without a leaf for
  \<open>q_old\<close> makes \<^verbatim>\<open>getLeaf\<close> answer \<^verbatim>\<open>None\<close>, and \<^verbatim>\<open>replace\<close> on it is an \<open>AttributeError\<close>.
\<close>

definition process_counterexample ::
  "('a, 'o) ttt_helpers \<Rightarrow> ('a, 'o) ttt_teacher \<Rightarrow> ('a, 'o) ttt \<Rightarrow> 'a list \<Rightarrow>
   error + ('a, 'o) ttt" where
  "process_counterexample hp tch st counterexample =
     (let (u, a, v) = decompose hp st counterexample;
          q_old_state = get_state_from_sequence hp st (u @ a);
          q_old_acc_seq = get_access_sequence_from_state hp st q_old_state;
          q_new_acc_seq = get_access_sequence hp st u @ a;
          (q_new_state, st1) = new_State (CHR ''s'' # string_of_nat (length (S_ttt st))) st
      in if q_new_acc_seq \<in> set (map fst (S_ttt st1)) then Inl AssertionError
         else
           (let st2 = st1\<lparr>S_ttt := dict_set (S_ttt st1) q_new_acc_seq q_new_state\<rparr> in
            case DTree st2 of
              None \<Rightarrow> Inl AttributeError
            | Some root \<Rightarrow>
                if q_old_state \<notin> set (leaves root) then Inl AttributeError
                else
                  (let new_inner = Inner v True [];
                       response_q_old = ttt_query tch (q_old_acc_seq @ v);
                       response_q_new = ttt_query tch (q_new_acc_seq @ v)
                   in if response_q_new = response_q_old then Inl AssertionError
                      else
                        (let q_new_leaf = Leaf q_new_state;
                             new_inner1 = node_add new_inner response_q_new q_new_leaf;
                             new_inner2 = node_add new_inner1 response_q_old (Leaf q_old_state)
                         in Inr (st2\<lparr>DTree := Some (replace_leaf q_old_state new_inner2 root)\<rparr>)))))"

subsection \<open>The invariants of the claims\<close>

text \<open>
  The states stored in S and the leaves of the tree correspond one to one: no state is
  held by two leaves, and the states at the leaves are the states stored in S.
\<close>

definition leaf_bijection :: "('a, 'o) ttt \<Rightarrow> bool" where
  "leaf_bijection st =
     (case DTree st of
        None \<Rightarrow> S_ttt st = []
      | Some root \<Rightarrow> distinct (leaves root) \<and> set (leaves root) = set (map snd (S_ttt st)))"

text \<open>
  The bijection, together with what the representation adds: every stored state is an
  object made before, and no key occurs twice in the list of the dictionary.
\<close>

definition ttt_inv :: "('a, 'o) ttt \<Rightarrow> bool" where
  "ttt_inv st =
     (leaf_bijection st \<and> list_all (\<lambda>q. q < next_object st) (map snd (S_ttt st)) \<and>
      distinct (map fst (S_ttt st)))"

text \<open>A set of words is prefix-closed: it holds the empty word and, with a non-empty word,
  the word without its last symbol.\<close>

definition prefix_closed :: "'a list set \<Rightarrow> bool" where
  "prefix_closed ks = ([] \<in> ks \<and> (\<forall>k \<in> ks. k \<noteq> [] \<longrightarrow> butlast k \<in> ks))"

text \<open>
  The learner \<open>st'\<close> has discovered the state \<open>q\<close>: S holds one entry more, for \<open>q\<close>, which no
  entry held before, and the tree has one leaf more, holding \<open>q\<close>.
\<close>

definition discovers :: "('a, 'o) ttt \<Rightarrow> nat \<Rightarrow> ('a, 'o) ttt \<Rightarrow> bool" where
  "discovers st q st' =
     (q \<notin> set (map snd (S_ttt st)) \<and> map snd (S_ttt st') = map snd (S_ttt st) @ [q] \<and>
      (case (DTree st, DTree st') of
         (Some root, Some root') \<Rightarrow>
           length (leaves root') = Suc (length (leaves root)) \<and>
           set (leaves root') = insert q (set (leaves root))
       | other \<Rightarrow> False))"

text \<open>
  The walk as the specification words it, for a teacher that answers with output words: at
  an inner node the child "keyed by the final output symbol of that query" is taken.
\<close>

fun walk_final_symbol ::
    "('a list \<Rightarrow> 'o list) \<Rightarrow> 'a list \<Rightarrow> ('a, 'o list) dnode \<Rightarrow> 'o list walk_result"
  and walk_final_symbol_children ::
    "('a list \<Rightarrow> 'o list) \<Rightarrow> 'a list \<Rightarrow> ('o list \<times> ('a, 'o list) dnode) list \<Rightarrow> 'o list \<Rightarrow>
     'o list walk_result" where
  "walk_final_symbol q sequence (Leaf s) = Reached s"
| "walk_final_symbol q sequence (Inner suffix temporary cs) =
     (let response = [last (q (sequence @ suffix))] in
      case walk_final_symbol_children q sequence cs response of
        Reached s \<Rightarrow> Reached s
      | Fell p \<Rightarrow> Fell (response # p))"
| "walk_final_symbol_children q sequence [] response = Fell []"
| "walk_final_symbol_children q sequence ((k, c) # cs) response =
     (if k = response then walk_final_symbol q sequence c
      else walk_final_symbol_children q sequence cs response)"

section \<open>A system under learning and two teachers for it\<close>

text \<open>
  A three-state Mealy machine over the inputs \<open>a\<close> and \<open>b\<close>: the third and every later
  \<open>a\<close> in a row is answered by 1, everything else by 0, and \<open>b\<close> starts the count again.
\<close>

definition sul_step :: "nat \<Rightarrow> char \<Rightarrow> nat \<times> nat" where
  "sul_step q c =
     (if c = CHR ''a'' then (min (q + 1) 2, if 2 \<le> q then 1 else 0) else (0, 0))"

fun sul_outputs :: "nat \<Rightarrow> string \<Rightarrow> nat list" where
  "sul_outputs q [] = []"
| "sul_outputs q (c # w) = snd (sul_step q c) # sul_outputs (fst (sul_step q c)) w"

text \<open>
  Modelled from the spec: \<^verbatim>\<open>MealyMachine.process_input\<close> lives in \<^verbatim>\<open>stmlearn.suls\<close>, which is
  not among the sources. Section 4.2: "runs from the current state, returns the
  concatenated output word, advances state"; here from a given state, \<open>None\<close> when an edge is
  missing.
\<close>

fun process_input ::
  "('k \<rightharpoonup> ('a, 'o, 'k) mealy_state) \<Rightarrow> 'k \<Rightarrow> 'a list \<Rightarrow> 'o list option" where
  "process_input sts q [] = Some []"
| "process_input sts q (a # w) =
     (case edge_of sts q a of
        None \<Rightarrow> None
      | Some (q', out) \<Rightarrow> map_option ((#) out) (process_input sts q' w))"

text \<open>
  A teacher as section 4.1 of the spec describes it: a membership query answers the output
  word, as long as the input. Its equivalence query tests the hypothesis on the word
  \<open>aaa\<close>.
\<close>

definition word_teacher :: "(char, nat list) lstar_teacher" where
  "word_teacher =
     \<lparr>get_alphabet = ''ab'',
      member_query = sul_outputs 0,
      equivalence_query = (\<lambda>h.
        if map_option (map last) (process_input (states h) (initial_state h) ''aaa'')
           = Some (sul_outputs 0 ''aaa'')
        then (True, []) else (False, ''aaa''))\<rparr>"

text \<open>
  A teacher over the input \<open>a\<close> alone whose membership query answers the last output symbol
  (0 for the empty word), with the same equivalence test.
\<close>

definition symbol_teacher :: "(char, nat) lstar_teacher" where
  "symbol_teacher =
     \<lparr>get_alphabet = ''a'',
      member_query = (\<lambda>w. last (0 # sul_outputs 0 w)),
      equivalence_query = (\<lambda>h.
        if process_input (states h) (initial_state h) ''aaa'' = Some (sul_outputs 0 ''aaa'')
        then (True, []) else (False, ''aaa''))\<rparr>"

text \<open>
  The same two kinds of teacher for the TTT learner; the equivalence query is not used by
  the methods modelled here.
\<close>

definition ttt_word_teacher :: "(char, nat list) ttt_teacher" where
  "ttt_word_teacher =
     \<lparr>get_alphabet = ''ab'',
      member_query = sul_outputs 0,
      equivalence_query = (\<lambda>h. (True, []))\<rparr>"

definition ttt_symbol_teacher :: "(char, nat) ttt_teacher" where
  "ttt_symbol_teacher =
     \<lparr>get_alphabet = ''a'',
      member_query = (\<lambda>w. last (0 # sul_outputs 0 w)),
      equivalence_query = (\<lambda>h. (True, []))\<rparr>"

text \<open>
  Helpers for the first counterexample \<open>u\<cdot>a\<cdot>v\<close> of a new learner, whose hypothesis has the one
  state \<open>s0\<close>: every word reaches \<open>s0\<close>, whose access sequence is the empty word.
\<close>

definition first_helpers :: "'a list \<Rightarrow> 'a list \<Rightarrow> 'a list \<Rightarrow> ('a, 'o) ttt_helpers" where
  "first_helpers u a v =
     \<lparr>decompose = (\<lambda>st ce. (u, a, v)),
      get_state_from_sequence = (\<lambda>st w. 0),
      get_access_sequence_from_state = (\<lambda>st q. []),
      get_access_sequence = (\<lambda>st w. [])\<rparr>"

text \<open>
  The learner after its first counterexample \<open>aa\<close>, split into \<open>u = \<epsilon>\<close>, \<open>a = a\<close>, \<open>v = a\<close>,
  with the teacher that answers output words: the answers to \<open>a\<cdot>a\<close> and to \<open>\<epsilon>\<cdot>a\<close> are \<open>[0, 0]\<close> and \<open>[0]\<close>.
\<close>

definition split_learner :: "(char, nat list) ttt" where
  "split_learner =
     \<lparr>S_ttt = [([], 0), (''a'', 1)],
      DTree = Some (Inner ''a'' True [([0, 0], Leaf 1), ([0], Leaf 0)]),
      A_ttt = [''a'', ''b''],
      objects = (\<lambda>i. MealyState ''s0'')(1 := MealyState ''s1''),
      next_object = 2\<rparr>"

text \<open>
  The learner after its first counterexample \<open>aaa\<close>, split into \<open>u = \<epsilon>\<close>, \<open>a = a\<close>, \<open>v = aa\<close>,
  with the teacher that answers the last output symbol: the answers to \<open>a\<cdot>aa\<close> and to
  \<open>\<epsilon>\<cdot>aa\<close> are 1 and 0.
\<close>

definition symbol_split_learner :: "(char, nat) ttt" where
  "symbol_split_learner =
     \<lparr>S_ttt = [([], 0), (''a'', 1)],
      DTree = Some (Inner ''aa'' True [(1, Leaf 1), (0, Leaf 0)]),
      A_ttt = [''a''],
      objects = (\<lambda>i. MealyState ''s0'')(1 := MealyState ''s1''),
      next_object = 2\<rparr>"

section \<open>L*: the memoized methods compute their bodies\<close>

lemma same_table_refl: "same_table st st" by (simp add: same_table_def)
lemma same_table_trans: "same_table st2 st1 \<Longrightarrow> same_table st1 st \<Longrightarrow> same_table st2 st"
  by (simp add: same_table_def)
lemma same_verdicts_trans: "same_verdicts st2 st1 \<Longrightarrow> same_verdicts st1 st \<Longrightarrow> same_verdicts st2 st"
  by (simp add: same_verdicts_def)

lemma same_table_vals:
  assumes "same_table st' st"
  shows "SA_val st' = SA_val st" "SUSA_val st' = SUSA_val st" "row_val tch st' = row_val tch st"
    "closed_val tch st' = closed_val tch st" "eqrows_val tch st' = eqrows_val tch st"
    "consistent_val tch st' = consistent_val tch st"
  using assms
  by (simp_all add: same_table_def SA_val_def SUSA_val_def row_val_def closed_val_def eqrows_val_def consistent_val_def fun_eq_iff)

lemma vals_upd [simp]:
  "SA_val (st\<lparr>mem_SA := x0\<rparr>) = SA_val st"
  "SA_val (st\<lparr>watch_SA := x1\<rparr>) = SA_val st"
  "SA_val (st\<lparr>mem_SUSA := x2\<rparr>) = SA_val st"
  "SA_val (st\<lparr>watch_SUSA := x3\<rparr>) = SA_val st"
  "SA_val (st\<lparr>mem_get_row := x4\<rparr>) = SA_val st"
  "SA_val (st\<lparr>watch_get_row := x5\<rparr>) = SA_val st"
  "SA_val (st\<lparr>mem_is_closed := x6\<rparr>) = SA_val st"
  "SA_val (st\<lparr>watch_is_closed := x7\<rparr>) = SA_val st"
  "SA_val (st\<lparr>mem_is_consistent := x8\<rparr>) = SA_val st"
  "SA_val (st\<lparr>watch_is_consistent := x9\<rparr>) = SA_val st"
  "SUSA_val (st\<lparr>mem_SA := x0\<rparr>) = SUSA_val st"
  "SUSA_val (st\<lparr>watch_SA := x1\<rparr>) = SUSA_val st"
  "SUSA_val (st\<lparr>mem_SUSA := x2\<rparr>) = SUSA_val st"
  "SUSA_val (st\<lparr>watch_SUSA := x3\<rparr>) = SUSA_val st"
  "SUSA_val (st\<lparr>mem_get_row := x4\<rparr>) = SUSA_val st"
  "SUSA_val (st\<lparr>watch_get_row := x5\<rparr>) = SUSA_val st"
  "SUSA_val (st\<lparr>mem_is_closed := x6\<rparr>) = SUSA_val st"
  "SUSA_val (st\<lparr>watch_is_closed := x7\<rparr>) = SUSA_val st"
  "SUSA_val (st\<lparr>mem_is_consistent := x8\<rparr>) = SUSA_val st"
  "SUSA_val (st\<lparr>watch_is_consistent := x9\<rparr>) = SUSA_val st"
  "row_val tch (st\<lparr>mem_SA := x0\<rparr>) s = row_val tch st s"
  "row_val tch (st\<lparr>watch_SA := x1\<rparr>) s = row_val tch st s"
  "row_val tch (st\<lparr>mem_SUSA := x2\<rparr>) s = row_val tch st s"
  "row_val tch (st\<lparr>watch_SUSA := x3\<rparr>) s = row_val tch st s"
  "row_val tch (st\<lparr>mem_get_row := x4\<rparr>) s = row_val tch st s"
  "row_val tch (st\<lparr>watch_get_row := x5\<rparr>) s = row_val tch st s"
  "row_val tch (st\<lparr>mem_is_closed := x6\<rparr>) s = row_val tch st s"
  "row_val tch (st\<lparr>watch_is_closed := x7\<rparr>) s = row_val tch st s"
  "row_val tch (st\<lparr>mem_is_consistent := x8\<rparr>) s = row_val tch st s"
  "row_val tch (st\<lparr>watch_is_consistent := x9\<rparr>) s = row_val tch st s"
  "closed_val tch (st\<lparr>mem_SA := x0\<rparr>) = closed_val tch st"
  "closed_val tch (st\<lparr>watch_SA := x1\<rparr>) = closed_val tch st"
  "closed_val tch (st\<lparr>mem_SUSA := x2\<rparr>) = closed_val tch st"
  "closed_val tch (st\<lparr>watch_SUSA := x3\<rparr>) = closed_val tch st"
  "closed_val tch (st\<lparr>mem_get_row := x4\<rparr>) = closed_val tch st"
  "closed_val tch (st\<lparr>watch_get_row := x5\<rparr>) = closed_val tch st"
  "closed_val tch (st\<lparr>mem_is_closed := x6\<rparr>) = closed_val tch st"
  "closed_val tch (st\<lparr>watch_is_closed := x7\<rparr>) = closed_val tch st"
  "closed_val tch (st\<lparr>mem_is_consistent := x8\<rparr>) = closed_val tch st"
  "closed_val tch (st\<lparr>watch_is_consistent := x9\<rparr>) = closed_val tch st"
  "eqrows_val tch (st\<lparr>mem_SA := x0\<rparr>) = eqrows_val tch st"
  "eqrows_val tch (st\<lparr>watch_SA := x1\<rparr>) = eqrows_val tch st"
  "eqrows_val tch (st\<lparr>mem_SUSA := x2\<rparr>) = eqrows_val tch st"
  "eqrows_val tch (st\<lparr>watch_SUSA := x3\<rparr>) = eqrows_val tch st"
  "eqrows_val tch (st\<lparr>mem_get_row := x4\<rparr>) = eqrows_val tch st"
  "eqrows_val tch (st\<lparr>watch_get_row := x5\<rparr>) = eqrows_val tch st"
  "eqrows_val tch (st\<lparr>mem_is_closed := x6\<rparr>) = eqrows_val tch st"
  "eqrows_val tch (st\<lparr>watch_is_closed := x7\<rparr>) = eqrows_val tch st"
  "eqrows_val tch (st\<lparr>mem_is_consistent := x8\<rparr>) = eqrows_val tch st"
  "eqrows_val tch (st\<lparr>watch_is_consistent := x9\<rparr>) = eqrows_val tch st"
  "consistent_val tch (st\<lparr>mem_SA := x0\<rparr>) = consistent_val tch st"
  "consistent_val tch (st\<lparr>watch_SA := x1\<rparr>) = consistent_val tch st"
  "consistent_val tch (st\<lparr>mem_SUSA := x2\<rparr>) = consistent_val tch st"
  "consistent_val tch (st\<lparr>watch_SUSA := x3\<rparr>) = consistent_val tch st"
  "consistent_val tch (st\<lparr>mem_get_row := x4\<rparr>) = consistent_val tch st"
  "consistent_val tch (st\<lparr>watch_get_row := x5\<rparr>) = consistent_val tch st"
  "consistent_val tch (st\<lparr>mem_is_closed := x6\<rparr>) = consistent_val tch st"
  "consistent_val tch (st\<lparr>watch_is_closed := x7\<rparr>) = consistent_val tch st"
  "consistent_val tch (st\<lparr>mem_is_consistent := x8\<rparr>) = consistent_val tch st"
  "consistent_val tch (st\<lparr>watch_is_consistent := x9\<rparr>) = consistent_val tch st"
  by (simp_all add: SA_val_def SUSA_val_def row_val_def closed_val_def eqrows_val_def consistent_val_def)


lemma cache_S_ok_fresh: "cache_S_ok (Some c) (Some v) c v"
  by (simp add: cache_S_ok_def)

lemma cache_S_ok_hit: "cache_S_ok (Some c) mem c v \<Longrightarrow> mem = Some v"
  by (simp add: cache_S_ok_def)

lemma cache_S_ok_zero: "0 < c \<Longrightarrow> cache_S_ok (Some 0) mem c v"
  by (simp add: cache_S_ok_def)

lemma SA_ok:
  assumes c: "coherent tch st"
  shows "\<exists>st'. SA st = Inr (SA_val st, st') \<and> same_table st' st \<and> same_rows st' st \<and> same_verdicts st' st \<and> coherent tch st'"
proof (cases "watch_SA st = Some (change_counter (S st))")
  case True
  with c have "mem_SA st = Some (SA_val st)"
    by (simp add: coherent_def cache_S_ok_def)
  with True show ?thesis using c
    by (simp add: SA_def depends_on_S_def Let_def same_table_def same_rows_def same_verdicts_def)
next
  case False
  have pos: "0 < change_counter (S st)" using c by (simp add: coherent_def)
  have stale: "(case watch_SA st of None \<Rightarrow> 0 | Some l \<Rightarrow> l) \<noteq> change_counter (S st)"
    using False pos by (auto split: option.splits)
  let ?st' = "st\<lparr>mem_SA := Some (SA_val st), watch_SA := Some (change_counter (S st))\<rparr>"
  have "SA st = Inr (SA_val st, ?st')"
    using stale
    by (simp add: SA_def depends_on_S_def Let_def SA_body_def ebind_def SA_val_def split: option.splits)
  moreover have "same_table ?st' st" "same_rows ?st' st" "same_verdicts ?st' st"
    by (simp_all add: same_table_def same_rows_def same_verdicts_def)
  moreover have "coherent tch ?st'"
    using c by (simp add: coherent_def cache_S_ok_fresh)
  ultimately show ?thesis by blast
qed

lemma SUSA_ok:
  assumes c: "coherent tch st"
  shows "\<exists>st'. SUSA st = Inr (SUSA_val st, st') \<and> same_table st' st \<and> same_rows st' st \<and> same_verdicts st' st \<and> coherent tch st'"
proof (cases "watch_SUSA st = Some (change_counter (S st))")
  case True
  with c have "mem_SUSA st = Some (SUSA_val st)"
    by (simp add: coherent_def cache_S_ok_def)
  with True show ?thesis using c
    by (simp add: SUSA_def depends_on_S_def Let_def same_table_def same_rows_def same_verdicts_def)
next
  case False
  have pos: "0 < change_counter (S st)" using c by (simp add: coherent_def)
  have stale: "(case watch_SUSA st of None \<Rightarrow> 0 | Some l \<Rightarrow> l) \<noteq> change_counter (S st)"
    using False pos by (auto split: option.splits)
  define st1 where "st1 = (case watch_SUSA st of None \<Rightarrow> st\<lparr>watch_SUSA := Some 0\<rparr> | Some l \<Rightarrow> st)"
  have t1: "same_table st1 st" and r1: "same_rows st1 st" and v1: "same_verdicts st1 st"
    by (simp_all add: st1_def same_table_def same_rows_def same_verdicts_def split: option.splits)
  have c1: "coherent tch st1"
  proof (cases "watch_SUSA st")
    case None
    then show ?thesis using c pos by (simp add: st1_def coherent_def cache_S_ok_zero)
  next
    case (Some l)
    then show ?thesis using c by (simp add: st1_def)
  qed
  from SA_ok [OF c1] obtain st2 where
    sa: "SA st1 = Inr (SA_val st1, st2)" and t2: "same_table st2 st1" and r2: "same_rows st2 st1"
    and v2: "same_verdicts st2 st1" and c2: "coherent tch st2" by blast
  have t20: "same_table st2 st" by (rule same_table_trans [OF t2 t1])
  let ?st' = "st2\<lparr>mem_SUSA := Some (SUSA_val st), watch_SUSA := Some (change_counter (S st))\<rparr>"
  have "SUSA st = Inr (SUSA_val st, ?st')"
    using stale sa t20
    by (simp add: SUSA_def depends_on_S_def Let_def SUSA_body_def ebind_def st1_def [symmetric]
        same_table_def SUSA_val_def same_table_vals [OF t1])
  moreover have "same_table ?st' st" "same_rows ?st' st" "same_verdicts ?st' st"
    using t1 t2 r1 r2 v1 v2 by (simp_all add: same_table_def same_rows_def same_verdicts_def)
  moreover have "coherent tch ?st'"
    using t20 c2 by (simp add: coherent_def same_table_vals [OF t20] same_table_def cache_S_ok_fresh)
  ultimately show ?thesis by blast
qed


lemma cache_SE_ok_reset: "cache_SE_ok (Some cs) (Some Map.empty) cs good"
  by (simp add: cache_SE_ok_def)

lemma cache_SE_ok_hit:
  "cache_SE_ok (Some cs) mem cs good \<Longrightarrow> \<exists>m. mem = Some m \<and> (\<forall>k v. m k = Some v \<longrightarrow> good k v)"
  by (simp add: cache_SE_ok_def split: option.splits)

lemma cache_SE_ok_insert:
  "cache_SE_ok (Some cs) (Some m) cs good \<Longrightarrow> good k v \<Longrightarrow>
   cache_SE_ok (Some cs) (Some (m(k \<mapsto> v))) cs good"
  by (simp add: cache_SE_ok_def)

lemma get_row_unfold:
  assumes "0 < change_counter (S st)"
  shows "get_row tch st s =
     (let st2 = (if watch_get_row st = Some (change_counter (S st), change_counter (E st)) then st
                 else st\<lparr>mem_get_row := Some Map.empty,
                        watch_get_row := Some (change_counter (S st), change_counter (E st))\<rparr>)
      in case mem_get_row st2 of
           None \<Rightarrow> Inl KeyError
         | Some m \<Rightarrow>
             (case m s of
                Some v \<Rightarrow> Inr (v, st2)
              | None \<Rightarrow>
                  ebind (get_row_body tch s st2) (\<lambda>(tmp, st3).
                    case mem_get_row st3 of
                      None \<Rightarrow> Inl KeyError
                    | Some m3 \<Rightarrow> Inr (tmp, st3\<lparr>mem_get_row := Some (m3(s \<mapsto> tmp))\<rparr>))))"
proof (cases "watch_get_row st")
  case None
  then show ?thesis using assms
    by (simp add: get_row_def depends_on_S_E_def Let_def)
next
  case (Some l)
  then show ?thesis
    by (cases l) (auto simp add: get_row_def depends_on_S_E_def Let_def)
qed

lemma get_row_ok:
  assumes c: "coherent tch st" and s: "s \<in> set (SUSA_val st)"
  shows "\<exists>st'. get_row tch st s = Inr (row_val tch st s, st') \<and> same_table st' st \<and>
           same_verdicts st' st \<and> coherent tch st'"
proof -
  let ?cs = "(change_counter (S st), change_counter (E st))"
  let ?good = "\<lambda>s r. s \<in> set (SUSA_val st) \<and> r = row_val tch st s"
  define st2 where "st2 = (if watch_get_row st = Some ?cs then st
       else st\<lparr>mem_get_row := Some Map.empty, watch_get_row := Some ?cs\<rparr>)"
  have pos: "0 < change_counter (S st)" using c by (simp add: coherent_def)
  have t2: "same_table st2 st" and v2: "same_verdicts st2 st"
    by (simp_all add: st2_def same_table_def same_verdicts_def)
  have w2: "watch_get_row st2 = Some ?cs"
    by (simp add: st2_def)
  have ok2: "cache_SE_ok (Some ?cs) (mem_get_row st2) ?cs ?good"
  proof (cases "watch_get_row st = Some ?cs")
    case True
    have "cache_SE_ok (watch_get_row st) (mem_get_row st) ?cs ?good"
      using c by (simp add: coherent_def)
    with True show ?thesis by (simp add: st2_def)
  next
    case False
    then show ?thesis by (simp add: st2_def cache_SE_ok_reset)
  qed
  have c2: "coherent tch st2"
  proof (cases "watch_get_row st = Some ?cs")
    case True
    then show ?thesis using c by (simp add: st2_def)
  next
    case False
    then show ?thesis using c by (simp add: st2_def coherent_def cache_SE_ok_reset)
  qed
  from cache_SE_ok_hit [OF ok2] obtain m where m: "mem_get_row st2 = Some m"
    and good: "\<And>k v. m k = Some v \<Longrightarrow> k \<in> set (SUSA_val st) \<and> v = row_val tch st k"
    by blast
  have unfold: "get_row tch st s =
      (case m s of Some v \<Rightarrow> Inr (v, st2)
       | None \<Rightarrow> ebind (get_row_body tch s st2) (\<lambda>(tmp, st3).
           case mem_get_row st3 of None \<Rightarrow> Inl KeyError
           | Some m3 \<Rightarrow> Inr (tmp, st3\<lparr>mem_get_row := Some (m3(s \<mapsto> tmp))\<rparr>)))"
    using m by (simp add: get_row_unfold [OF pos] st2_def [symmetric])
  show ?thesis
  proof (cases "m s")
    case (Some v)
    with good have "v = row_val tch st s" by simp
    with Some unfold t2 v2 c2 show ?thesis by auto
  next
    case None
    from SUSA_ok [OF c2] obtain st3 where
      susa: "SUSA st2 = Inr (SUSA_val st2, st3)" and t3: "same_table st3 st2"
      and r3: "same_rows st3 st2" and v3: "same_verdicts st3 st2" and c3: "coherent tch st3"
      by blast
    have t30: "same_table st3 st" by (rule same_table_trans [OF t3 t2])
    let ?row = "row_val tch st s"
    let ?st' = "st3\<lparr>mem_get_row := Some (m(s \<mapsto> ?row))\<rparr>"
    have m3: "mem_get_row st3 = Some m" and w3: "watch_get_row st3 = Some ?cs"
      using r3 m w2 by (simp_all add: same_rows_def)
    have body: "get_row_body tch s st2 = Inr (?row, st3)"
      using susa s t30
      by (simp add: get_row_body_def ebind_def same_table_vals [OF t2] row_val_def query_def same_table_def)
    have res: "get_row tch st s = Inr (?row, ?st')"
      using None body m3 by (simp add: unfold ebind_def)
    have t': "same_table ?st' st" using t30 by (simp add: same_table_def)
    have v': "same_verdicts ?st' st" using v3 v2 by (simp add: same_verdicts_def)
    have ok3: "cache_SE_ok (Some ?cs) (Some m) ?cs ?good"
      using ok2 m by simp
    have c': "coherent tch ?st'"
      using t30 c3 w3 cache_SE_ok_insert [OF ok3, of s ?row] s
      by (simp add: coherent_def same_table_vals [OF t30] same_table_def)
    from res t' v' c' show ?thesis by blast
  qed
qed


lemma set_list_union [simp]: "set (list_union xs ys) = set xs \<union> set ys"
  by (auto simp: list_union_def)

lemma set_SA_val:
  "set (SA_val st) = {s @ a | s a. s \<in> set (elems (S st)) \<and> a \<in> set (A st)} \<union> set (A st)"
  by (auto simp: SA_val_def)

lemma set_SUSA_val: "set (SUSA_val st) = set (elems (S st)) \<union> set (SA_val st)"
  by (simp add: SUSA_val_def)

lemma S_in_SUSA: "s \<in> set (elems (S st)) \<Longrightarrow> s \<in> set (SUSA_val st)"
  by (simp add: set_SUSA_val)

lemma SA_in_SUSA: "s \<in> set (elems (S st)) \<Longrightarrow> a \<in> set (A st) \<Longrightarrow> s @ a \<in> set (SUSA_val st)"
  by (auto simp: set_SUSA_val set_SA_val)

lemma get_rows_ok:
  assumes "coherent tch st" and "set xs \<subseteq> set (SUSA_val st)"
  shows "\<exists>st'. get_rows tch xs st = Inr (map (row_val tch st) xs, st') \<and> same_table st' st \<and>
           same_verdicts st' st \<and> coherent tch st'"
  using assms
proof (induction xs arbitrary: st)
  case Nil
  then show ?case by (simp add: same_table_def same_verdicts_def)
next
  case (Cons x xs)
  from Cons.prems have x: "x \<in> set (SUSA_val st)" by simp
  from get_row_ok [OF Cons.prems(1) x] obtain st1 where
    r: "get_row tch st x = Inr (row_val tch st x, st1)" and t1: "same_table st1 st"
    and v1: "same_verdicts st1 st" and c1: "coherent tch st1" by blast
  have "set xs \<subseteq> set (SUSA_val st1)"
    using Cons.prems(2) by (simp add: same_table_vals [OF t1])
  from Cons.IH [OF c1 this] obtain st2 where
    rs: "get_rows tch xs st1 = Inr (map (row_val tch st1) xs, st2)" and t2: "same_table st2 st1"
    and v2: "same_verdicts st2 st1" and c2: "coherent tch st2" by blast
  have "get_rows tch (x # xs) st = Inr (map (row_val tch st) (x # xs), st2)"
    using r rs by (simp add: ebind_def same_table_vals [OF t1])
  with same_table_trans [OF t2 t1] same_verdicts_trans [OF v2 v1] c2 show ?case by blast
qed

lemma closed_loop_ok:
  assumes "coherent tch st" and "set ts \<subseteq> set (SUSA_val st)"
  shows "\<exists>st'. closed_loop tch S_rows ts acc st =
             Inr (acc \<and> list_all (\<lambda>t. row_val tch st t \<in> set S_rows) ts, st') \<and>
           same_table st' st \<and> same_verdicts st' st \<and> coherent tch st'"
  using assms
proof (induction ts arbitrary: st acc)
  case Nil
  then show ?case by (simp add: same_table_def same_verdicts_def)
next
  case (Cons x xs)
  from Cons.prems have x: "x \<in> set (SUSA_val st)" by simp
  from get_row_ok [OF Cons.prems(1) x] obtain st1 where
    r: "get_row tch st x = Inr (row_val tch st x, st1)" and t1: "same_table st1 st"
    and v1: "same_verdicts st1 st" and c1: "coherent tch st1" by blast
  have "set xs \<subseteq> set (SUSA_val st1)"
    using Cons.prems(2) by (simp add: same_table_vals [OF t1])
  from Cons.IH [OF c1 this, of "acc \<and> row_val tch st x \<in> set S_rows"] obtain st2 where
    rs: "closed_loop tch S_rows xs (acc \<and> row_val tch st x \<in> set S_rows) st1 =
          Inr ((acc \<and> row_val tch st x \<in> set S_rows) \<and>
               list_all (\<lambda>t. row_val tch st1 t \<in> set S_rows) xs, st2)"
    and t2: "same_table st2 st1"
    and v2: "same_verdicts st2 st1" and c2: "coherent tch st2" by blast
  have "closed_loop tch S_rows (x # xs) acc st =
      Inr (acc \<and> list_all (\<lambda>t. row_val tch st t \<in> set S_rows) (x # xs), st2)"
    using r rs by (simp add: ebind_def same_table_vals [OF t1])
  with same_table_trans [OF t2 t1] same_verdicts_trans [OF v2 v1] c2 show ?case by blast
qed

lemma is_closed_body_ok:
  assumes c: "coherent tch st"
  shows "\<exists>st'. is_closed_body tch st = Inr (closed_val tch st, st') \<and> same_table st' st \<and>
           same_verdicts st' st \<and> coherent tch st'"
proof -
  have "set (elems (S st)) \<subseteq> set (SUSA_val st)" by (auto simp: set_SUSA_val)
  from get_rows_ok [OF c this] obtain st1 where
    r: "get_rows tch (elems (S st)) st = Inr (map (row_val tch st) (elems (S st)), st1)"
    and t1: "same_table st1 st" and v1: "same_verdicts st1 st" and c1: "coherent tch st1"
    by blast
  from SA_ok [OF c1] obtain st2 where
    sa: "SA st1 = Inr (SA_val st1, st2)" and t2: "same_table st2 st1"
    and v2: "same_verdicts st2 st1" and c2: "coherent tch st2" by blast
  have t20: "same_table st2 st" by (rule same_table_trans [OF t2 t1])
  have "set (SA_val st) \<subseteq> set (SUSA_val st2)"
    by (auto simp: same_table_vals [OF t20] set_SUSA_val)
  from closed_loop_ok [OF c2 this, of "map (row_val tch st) (elems (S st))" True] obtain st3 where
    l: "closed_loop tch (map (row_val tch st) (elems (S st))) (SA_val st) True st2 =
          Inr (True \<and> list_all (\<lambda>t. row_val tch st2 t \<in> set (map (row_val tch st) (elems (S st)))) (SA_val st), st3)"
    and t3: "same_table st3 st2" and v3: "same_verdicts st3 st2" and c3: "coherent tch st3"
    by blast
  have "is_closed_body tch st = Inr (closed_val tch st, st3)"
    using r sa l t1 by (simp add: is_closed_body_def ebind_def same_table_vals [OF t1]
        same_table_vals [OF t20] closed_val_def same_table_def)
  with same_table_trans [OF t3 t20] same_verdicts_trans [OF v3 same_verdicts_trans [OF v2 v1]] c3
  show ?thesis by blast
qed


lemma is_closed_unfold:
  assumes "0 < change_counter (S st)"
  shows "is_closed tch st =
     (let st2 = (if watch_is_closed st = Some (change_counter (S st), change_counter (E st)) then st
                 else st\<lparr>mem_is_closed := Some Map.empty,
                        watch_is_closed := Some (change_counter (S st), change_counter (E st))\<rparr>)
      in case mem_is_closed st2 of
           None \<Rightarrow> Inl KeyError
         | Some m \<Rightarrow>
             (case m () of
                Some v \<Rightarrow> Inr (v, st2)
              | None \<Rightarrow>
                  ebind (is_closed_body tch st2) (\<lambda>(tmp, st3).
                    case mem_is_closed st3 of
                      None \<Rightarrow> Inl KeyError
                    | Some m3 \<Rightarrow> Inr (tmp, st3\<lparr>mem_is_closed := Some (m3(() \<mapsto> tmp))\<rparr>))))"
proof (cases "watch_is_closed st")
  case None
  then show ?thesis using assms
    by (simp add: is_closed_def depends_on_S_E_def Let_def)
next
  case (Some l)
  then show ?thesis
    by (cases l) (auto simp add: is_closed_def depends_on_S_E_def Let_def)
qed

lemma is_closed_ok:
  assumes c: "coherent tch st"
  shows "\<exists>st'. is_closed tch st = Inr (closed_val tch st, st') \<and> same_table st' st \<and> coherent tch st'"
proof -
  let ?cs = "(change_counter (S st), change_counter (E st))"
  let ?good = "\<lambda>(u::unit) b. b = closed_val tch st"
  define st2 where "st2 = (if watch_is_closed st = Some ?cs then st
       else st\<lparr>mem_is_closed := Some Map.empty, watch_is_closed := Some ?cs\<rparr>)"
  have pos: "0 < change_counter (S st)" using c by (simp add: coherent_def)
  have t2: "same_table st2 st"
    by (simp_all add: st2_def same_table_def)
  have w2: "watch_is_closed st2 = Some ?cs"
    by (simp add: st2_def)
  have ok2: "cache_SE_ok (Some ?cs) (mem_is_closed st2) ?cs ?good"
  proof (cases "watch_is_closed st = Some ?cs")
    case True
    have "cache_SE_ok (watch_is_closed st) (mem_is_closed st) ?cs ?good"
      using c by (simp add: coherent_def)
    with True show ?thesis by (simp add: st2_def)
  next
    case False
    then show ?thesis by (simp add: st2_def cache_SE_ok_reset)
  qed
  have c2: "coherent tch st2"
  proof (cases "watch_is_closed st = Some ?cs")
    case True
    then show ?thesis using c by (simp add: st2_def)
  next
    case False
    then show ?thesis using c by (simp add: st2_def coherent_def cache_SE_ok_reset)
  qed
  from cache_SE_ok_hit [OF ok2] obtain m where m: "mem_is_closed st2 = Some m"
    and good: "\<And>k v. m k = Some v \<Longrightarrow> v = closed_val tch st"
    by blast
  have unfold: "is_closed tch st =
      (case m () of Some v \<Rightarrow> Inr (v, st2)
       | None \<Rightarrow> ebind (is_closed_body tch st2) (\<lambda>(tmp, st3).
           case mem_is_closed st3 of None \<Rightarrow> Inl KeyError
           | Some m3 \<Rightarrow> Inr (tmp, st3\<lparr>mem_is_closed := Some (m3(() \<mapsto> tmp))\<rparr>)))"
    using m by (simp add: is_closed_unfold [OF pos] st2_def [symmetric])
  show ?thesis
  proof (cases "m ()")
    case (Some v)
    with good have "v = closed_val tch st" by simp
    with Some unfold t2 c2 show ?thesis by auto
  next
    case None
    from is_closed_body_ok [OF c2] obtain st3 where
      body: "is_closed_body tch st2 = Inr (closed_val tch st2, st3)" and t3: "same_table st3 st2"
      and v3: "same_verdicts st3 st2" and c3: "coherent tch st3"
      by blast
    have t30: "same_table st3 st" by (rule same_table_trans [OF t3 t2])
    let ?v = "closed_val tch st"
    let ?st' = "st3\<lparr>mem_is_closed := Some (m(() \<mapsto> ?v))\<rparr>"
    have m3: "mem_is_closed st3 = Some m" and w3: "watch_is_closed st3 = Some ?cs"
      using v3 m w2 by (simp_all add: same_verdicts_def)
    have res: "is_closed tch st = Inr (?v, ?st')"
      using None body m3 by (simp add: unfold ebind_def same_table_vals [OF t2])
    have t': "same_table ?st' st" using t30 by (simp add: same_table_def)
    have ok3: "cache_SE_ok (Some ?cs) (Some m) ?cs ?good"
      using ok2 m by simp
    have c': "coherent tch ?st'"
      using t30 c3 w3 cache_SE_ok_insert [OF ok3, where k = "()" and v = ?v]
      by (simp add: coherent_def same_table_vals [OF t30] same_table_def)
    from res t' c' show ?thesis by blast
  qed
qed

lemma combinations2_subset: "(x, y) \<in> set (combinations2 xs) \<Longrightarrow> x \<in> set xs \<and> y \<in> set xs"
  by (induction xs) auto

lemma eqrows_of_ok:
  assumes "coherent tch st" and "\<forall>(s1, s2) \<in> set ps. s1 \<in> set (SUSA_val st) \<and> s2 \<in> set (SUSA_val st)"
  shows "\<exists>st'. eqrows_of tch ps st =
             Inr (filter (\<lambda>(s1, s2). row_val tch st s1 = row_val tch st s2) ps, st') \<and>
           same_table st' st \<and> same_verdicts st' st \<and> coherent tch st'"
  using assms
proof (induction ps arbitrary: st)
  case Nil
  then show ?case by (simp add: same_table_def same_verdicts_def)
next
  case (Cons p ps)
  obtain s1 s2 where p: "p = (s1, s2)" by (cases p)
  from Cons.prems p have m1: "s1 \<in> set (SUSA_val st)" and m2: "s2 \<in> set (SUSA_val st)" by auto
  from get_row_ok [OF Cons.prems(1) m1] obtain st1 where
    r1: "get_row tch st s1 = Inr (row_val tch st s1, st1)" and t1: "same_table st1 st"
    and v1: "same_verdicts st1 st" and c1: "coherent tch st1" by blast
  have "s2 \<in> set (SUSA_val st1)" using m2 by (simp add: same_table_vals [OF t1])
  from get_row_ok [OF c1 this] obtain st2 where
    r2: "get_row tch st1 s2 = Inr (row_val tch st1 s2, st2)" and t2: "same_table st2 st1"
    and v2: "same_verdicts st2 st1" and c2: "coherent tch st2" by blast
  have t20: "same_table st2 st" by (rule same_table_trans [OF t2 t1])
  have "\<forall>(s1, s2) \<in> set ps. s1 \<in> set (SUSA_val st2) \<and> s2 \<in> set (SUSA_val st2)"
    using Cons.prems(2) by (simp add: same_table_vals [OF t20])
  from Cons.IH [OF c2 this] obtain st3 where
    rs: "eqrows_of tch ps st2 =
           Inr (filter (\<lambda>(s1, s2). row_val tch st2 s1 = row_val tch st2 s2) ps, st3)"
    and t3: "same_table st3 st2" and v3: "same_verdicts st3 st2" and c3: "coherent tch st3"
    by blast
  have "eqrows_of tch (p # ps) st =
      Inr (filter (\<lambda>(s1, s2). row_val tch st s1 = row_val tch st s2) (p # ps), st3)"
    using r1 r2 rs by (simp add: p ebind_def same_table_vals [OF t1] same_table_vals [OF t20])
  with same_table_trans [OF t3 t20] same_verdicts_trans [OF v3 same_verdicts_trans [OF v2 v1]] c3
  show ?case by blast
qed

lemma consistent_loop_ok:
  assumes "coherent tch st"
    and "\<forall>((s1, s2), a) \<in> set xs. s1 @ a \<in> set (SUSA_val st) \<and> s2 @ a \<in> set (SUSA_val st)"
  shows "\<exists>st'. consistent_loop tch xs acc st =
             Inr (acc \<and> list_all (\<lambda>((s1, s2), a). row_val tch st (s1 @ a) = row_val tch st (s2 @ a)) xs, st') \<and>
           same_table st' st \<and> same_verdicts st' st \<and> coherent tch st'"
  using assms
proof (induction xs arbitrary: st acc)
  case Nil
  then show ?case by (simp add: same_table_def same_verdicts_def)
next
  case (Cons p ps)
  obtain s1 s2 a where p: "p = ((s1, s2), a)" by (cases p) auto
  from Cons.prems p have m1: "s1 @ a \<in> set (SUSA_val st)" and m2: "s2 @ a \<in> set (SUSA_val st)" by auto
  from get_row_ok [OF Cons.prems(1) m1] obtain st1 where
    r1: "get_row tch st (s1 @ a) = Inr (row_val tch st (s1 @ a), st1)" and t1: "same_table st1 st"
    and v1: "same_verdicts st1 st" and c1: "coherent tch st1" by blast
  have "s2 @ a \<in> set (SUSA_val st1)" using m2 by (simp add: same_table_vals [OF t1])
  from get_row_ok [OF c1 this] obtain st2 where
    r2: "get_row tch st1 (s2 @ a) = Inr (row_val tch st1 (s2 @ a), st2)" and t2: "same_table st2 st1"
    and v2: "same_verdicts st2 st1" and c2: "coherent tch st2" by blast
  have t20: "same_table st2 st" by (rule same_table_trans [OF t2 t1])
  let ?acc = "acc \<and> row_val tch st (s1 @ a) = row_val tch st (s2 @ a)"
  have "\<forall>((s1, s2), a) \<in> set ps. s1 @ a \<in> set (SUSA_val st2) \<and> s2 @ a \<in> set (SUSA_val st2)"
    using Cons.prems(2) by (simp add: same_table_vals [OF t20])
  from Cons.IH [OF c2 this, of ?acc] obtain st3 where
    rs: "consistent_loop tch ps ?acc st2 =
           Inr (?acc \<and> list_all (\<lambda>((s1, s2), a). row_val tch st2 (s1 @ a) = row_val tch st2 (s2 @ a)) ps, st3)"
    and t3: "same_table st3 st2" and v3: "same_verdicts st3 st2" and c3: "coherent tch st3"
    by blast
  have "consistent_loop tch (p # ps) acc st =
      Inr (acc \<and> list_all (\<lambda>((s1, s2), a). row_val tch st (s1 @ a) = row_val tch st (s2 @ a)) (p # ps), st3)"
    using r1 r2 rs by (simp add: p ebind_def same_table_vals [OF t1] same_table_vals [OF t20])
  with same_table_trans [OF t3 t20] same_verdicts_trans [OF v3 same_verdicts_trans [OF v2 v1]] c3
  show ?case by blast
qed

lemma eqrows_val_subset:
  "((s1, s2), a) \<in> set (List.product (eqrows_val tch st) (A st)) \<Longrightarrow>
   s1 \<in> set (elems (S st)) \<and> s2 \<in> set (elems (S st)) \<and> a \<in> set (A st)"
  by (auto simp: eqrows_val_def dest: combinations2_subset)

lemma is_consistent_body_ok:
  assumes c: "coherent tch st"
  shows "\<exists>st'. is_consistent_body tch st = Inr (consistent_val tch st, st') \<and> same_table st' st \<and>
           same_verdicts st' st \<and> coherent tch st'"
proof -
  have "\<forall>(s1, s2) \<in> set (combinations2 (elems (S st))). s1 \<in> set (SUSA_val st) \<and> s2 \<in> set (SUSA_val st)"
    by (auto dest: combinations2_subset simp: set_SUSA_val)
  from eqrows_of_ok [OF c this] obtain st1 where
    r: "eqrows_of tch (combinations2 (elems (S st))) st = Inr (eqrows_val tch st, st1)"
    and t1: "same_table st1 st" and v1: "same_verdicts st1 st" and c1: "coherent tch st1"
    unfolding eqrows_val_def by blast
  have "\<forall>((s1, s2), a) \<in> set (List.product (eqrows_val tch st) (A st)).
          s1 @ a \<in> set (SUSA_val st1) \<and> s2 @ a \<in> set (SUSA_val st1)"
    using eqrows_val_subset [of _ _ _ tch st]
    by (auto simp: same_table_vals [OF t1] intro: SA_in_SUSA)
  from consistent_loop_ok [OF c1 this, of True] obtain st2 where
    l: "consistent_loop tch (List.product (eqrows_val tch st) (A st)) True st1 =
          Inr (True \<and> list_all (\<lambda>((s1, s2), a). row_val tch st1 (s1 @ a) = row_val tch st1 (s2 @ a))
                 (List.product (eqrows_val tch st) (A st)), st2)"
    and t2: "same_table st2 st1" and v2: "same_verdicts st2 st1" and c2: "coherent tch st2"
    by blast
  have "is_consistent_body tch st = Inr (consistent_val tch st, st2)"
    using r l t1 by (simp add: is_consistent_body_def ebind_def same_table_vals [OF t1]
        consistent_val_def same_table_def)
  with same_table_trans [OF t2 t1] same_verdicts_trans [OF v2 v1] c2
  show ?thesis by blast
qed

lemma is_consistent_unfold:
  assumes "0 < change_counter (S st)"
  shows "is_consistent tch st =
     (let st2 = (if watch_is_consistent st = Some (change_counter (S st), change_counter (E st)) then st
                 else st\<lparr>mem_is_consistent := Some Map.empty,
                        watch_is_consistent := Some (change_counter (S st), change_counter (E st))\<rparr>)
      in case mem_is_consistent st2 of
           None \<Rightarrow> Inl KeyError
         | Some m \<Rightarrow>
             (case m () of
                Some v \<Rightarrow> Inr (v, st2)
              | None \<Rightarrow>
                  ebind (is_consistent_body tch st2) (\<lambda>(tmp, st3).
                    case mem_is_consistent st3 of
                      None \<Rightarrow> Inl KeyError
                    | Some m3 \<Rightarrow> Inr (tmp, st3\<lparr>mem_is_consistent := Some (m3(() \<mapsto> tmp))\<rparr>))))"
proof (cases "watch_is_consistent st")
  case None
  then show ?thesis using assms
    by (simp add: is_consistent_def depends_on_S_E_def Let_def)
next
  case (Some l)
  then show ?thesis
    by (cases l) (auto simp add: is_consistent_def depends_on_S_E_def Let_def)
qed

lemma is_consistent_ok:
  assumes c: "coherent tch st"
  shows "\<exists>st'. is_consistent tch st = Inr (consistent_val tch st, st') \<and> same_table st' st \<and> coherent tch st'"
proof -
  let ?cs = "(change_counter (S st), change_counter (E st))"
  let ?good = "\<lambda>(u::unit) b. b = consistent_val tch st"
  define st2 where "st2 = (if watch_is_consistent st = Some ?cs then st
       else st\<lparr>mem_is_consistent := Some Map.empty, watch_is_consistent := Some ?cs\<rparr>)"
  have pos: "0 < change_counter (S st)" using c by (simp add: coherent_def)
  have t2: "same_table st2 st"
    by (simp_all add: st2_def same_table_def)
  have w2: "watch_is_consistent st2 = Some ?cs"
    by (simp add: st2_def)
  have ok2: "cache_SE_ok (Some ?cs) (mem_is_consistent st2) ?cs ?good"
  proof (cases "watch_is_consistent st = Some ?cs")
    case True
    have "cache_SE_ok (watch_is_consistent st) (mem_is_consistent st) ?cs ?good"
      using c by (simp add: coherent_def)
    with True show ?thesis by (simp add: st2_def)
  next
    case False
    then show ?thesis by (simp add: st2_def cache_SE_ok_reset)
  qed
  have c2: "coherent tch st2"
  proof (cases "watch_is_consistent st = Some ?cs")
    case True
    then show ?thesis using c by (simp add: st2_def)
  next
    case False
    then show ?thesis using c by (simp add: st2_def coherent_def cache_SE_ok_reset)
  qed
  from cache_SE_ok_hit [OF ok2] obtain m where m: "mem_is_consistent st2 = Some m"
    and good: "\<And>k v. m k = Some v \<Longrightarrow> v = consistent_val tch st"
    by blast
  have unfold: "is_consistent tch st =
      (case m () of Some v \<Rightarrow> Inr (v, st2)
       | None \<Rightarrow> ebind (is_consistent_body tch st2) (\<lambda>(tmp, st3).
           case mem_is_consistent st3 of None \<Rightarrow> Inl KeyError
           | Some m3 \<Rightarrow> Inr (tmp, st3\<lparr>mem_is_consistent := Some (m3(() \<mapsto> tmp))\<rparr>)))"
    using m by (simp add: is_consistent_unfold [OF pos] st2_def [symmetric])
  show ?thesis
  proof (cases "m ()")
    case (Some v)
    with good have "v = consistent_val tch st" by simp
    with Some unfold t2 c2 show ?thesis by auto
  next
    case None
    from is_consistent_body_ok [OF c2] obtain st3 where
      body: "is_consistent_body tch st2 = Inr (consistent_val tch st2, st3)" and t3: "same_table st3 st2"
      and v3: "same_verdicts st3 st2" and c3: "coherent tch st3"
      by blast
    have t30: "same_table st3 st" by (rule same_table_trans [OF t3 t2])
    let ?v = "consistent_val tch st"
    let ?st' = "st3\<lparr>mem_is_consistent := Some (m(() \<mapsto> ?v))\<rparr>"
    have m3: "mem_is_consistent st3 = Some m" and w3: "watch_is_consistent st3 = Some ?cs"
      using v3 m w2 by (simp_all add: same_verdicts_def)
    have res: "is_consistent tch st = Inr (?v, ?st')"
      using None body m3 by (simp add: unfold ebind_def same_table_vals [OF t2])
    have t': "same_table ?st' st" using t30 by (simp add: same_table_def)
    have ok3: "cache_SE_ok (Some ?cs) (Some m) ?cs ?good"
      using ok2 m by simp
    have c': "coherent tch ?st'"
      using t30 c3 w3 cache_SE_ok_insert [OF ok3, where k = "()" and v = ?v]
      by (simp add: coherent_def same_table_vals [OF t30] same_table_def)
    from res t' c' show ?thesis by blast
  qed
qed


lemma cache_S_ok_bump: "cache_S_ok w m c v \<Longrightarrow> cache_S_ok w m (c + 1) v'"
  by (auto simp: cache_S_ok_def split: option.splits)

lemma cache_SE_ok_bump_S: "cache_SE_ok w m (cS, cE) g \<Longrightarrow> cache_SE_ok w m (cS + 1, cE) g'"
  by (auto simp: cache_SE_ok_def split: option.splits)

lemma cache_SE_ok_bump_E: "cache_SE_ok w m (cS, cE) g \<Longrightarrow> cache_SE_ok w m (cS, cE + 1) g'"
  by (auto simp: cache_SE_ok_def split: option.splits)

lemma SA_val_E_upd [simp]: "SA_val (st\<lparr>E := e\<rparr>) = SA_val st" "SUSA_val (st\<lparr>E := e\<rparr>) = SUSA_val st"
  by (simp_all add: SA_val_def SUSA_val_def)

lemma change_counter_ns_add [simp]: "change_counter (ns_add x ns) = change_counter ns + 1"
  by (simp add: ns_add_def)

lemma set_elems_ns_add [simp]: "set (elems (ns_add x ns)) = insert x (set (elems ns))"
  by (auto simp: ns_add_def)

lemma coherent_add_S:
  assumes "coherent tch st"
  shows "coherent tch (st\<lparr>S := ns_add x (S st)\<rparr>)"
  unfolding coherent_def using assms [unfolded coherent_def]
  by (auto intro: cache_S_ok_bump cache_SE_ok_bump_S)

lemma coherent_add_E:
  assumes "coherent tch st"
  shows "coherent tch (st\<lparr>E := ns_add x (E st)\<rparr>)"
  unfolding coherent_def using assms [unfolded coherent_def]
  by (auto intro: cache_SE_ok_bump_E)

lemma coherent_init: "coherent tch (lstar_init tch)"
proof -
  have "0 \<le> change_counter (fold ns_add xs ns)" if "0 \<le> change_counter ns" for xs and ns :: "'a list notifier_set"
    using that by (induction xs arbitrary: ns) (simp_all add: ns_add_def)
  then show ?thesis
    by (simp add: coherent_def lstar_init_def Let_def ns_add_def NotifierSet_def cache_S_ok_def cache_SE_ok_def)
qed

lemma fix_consistency_ok:
  assumes c: "coherent tch st"
  shows "\<exists>st'. fix_consistency tch st = Inr st' \<and> coherent tch st' \<and> S st' = S st \<and>
           T st' = T st \<and> A st' = A st \<and>
           E st' = (case List.find (\<lambda>((s1, s2), (a, e)).
                         member_query tch (s1 @ a @ e) \<noteq> member_query tch (s2 @ a @ e))
                       (List.product (eqrows_val tch st) (List.product (A st) (elems (E st)))) of
                      None \<Rightarrow> E st
                    | Some ((s1, s2), (a, e)) \<Rightarrow> ns_add (a @ e) (E st))"
proof -
  have "\<forall>(s1, s2) \<in> set (combinations2 (elems (S st))). s1 \<in> set (SUSA_val st) \<and> s2 \<in> set (SUSA_val st)"
    by (auto dest: combinations2_subset simp: set_SUSA_val)
  from eqrows_of_ok [OF c this] obtain st1 where
    r: "eqrows_of tch (combinations2 (elems (S st))) st = Inr (eqrows_val tch st, st1)"
    and t1: "same_table st1 st" and c1: "coherent tch st1"
    unfolding eqrows_val_def by blast
  let ?found = "List.find (\<lambda>((s1, s2), (a, e)).
                         member_query tch (s1 @ a @ e) \<noteq> member_query tch (s2 @ a @ e))
                       (List.product (eqrows_val tch st) (List.product (A st) (elems (E st))))"
  show ?thesis
  proof (cases ?found)
    case None
    then have "fix_consistency tch st = Inr st1"
      using r t1 by (simp add: fix_consistency_def ebind_def Let_def query_def same_table_def)
    with None t1 c1 show ?thesis by (simp add: same_table_def)
  next
    case (Some p)
    obtain s1 s2 a e where p: "p = ((s1, s2), (a, e))" by (cases p) auto
    have "fix_consistency tch st = Inr (st1\<lparr>E := ns_add (a @ e) (E st1)\<rparr>)"
      using r t1 Some p by (simp add: fix_consistency_def ebind_def Let_def query_def same_table_def)
    with Some p t1 coherent_add_E [OF c1, of "a @ e"] show ?thesis by (simp add: same_table_def)
  qed
qed


lemma row_val_cong: "E st' = E st \<Longrightarrow> row_val tch st' s = row_val tch st s"
  by (simp add: row_val_def)

lemma SUSA_val_mono:
  assumes "set (elems (S st)) \<subseteq> set (elems (S st'))" and "A st' = A st"
  shows "set (SUSA_val st) \<subseteq> set (SUSA_val st')"
  using assms by (auto simp: set_SUSA_val set_SA_val)

lemma close_loop_ok:
  assumes "coherent tch st" and "\<forall>(s, a) \<in> set xs. s @ a \<in> set (SUSA_val st)"
  shows "\<exists>st'. close_loop tch S_rows xs st = Inr st' \<and> coherent tch st' \<and> E st' = E st \<and>
           T st' = T st \<and> A st' = A st \<and>
           S st' = fold ns_add (new_words tch st S_rows xs) (S st)"
  using assms
proof (induction xs arbitrary: st)
  case Nil
  then show ?case by (simp add: new_words_def)
next
  case (Cons p ps)
  obtain s a where p: "p = (s, a)" by (cases p)
  from Cons.prems p have m: "s @ a \<in> set (SUSA_val st)" by auto
  from get_row_ok [OF Cons.prems(1) m] obtain st1 where
    r: "get_row tch st (s @ a) = Inr (row_val tch st (s @ a), st1)" and t1: "same_table st1 st"
    and c1: "coherent tch st1" by blast
  define st2 where "st2 = (if row_val tch st (s @ a) \<notin> set S_rows
      then st1\<lparr>S := ns_add (s @ a) (S st1)\<rparr> else st1)"
  have c2: "coherent tch st2"
    using c1 by (simp add: st2_def coherent_add_S)
  have f2: "E st2 = E st" "T st2 = T st" "A st2 = A st"
    using t1 by (simp_all add: st2_def same_table_def)
  have S2: "S st2 = (if row_val tch st (s @ a) \<notin> set S_rows then ns_add (s @ a) (S st) else S st)"
    using t1 by (auto simp: st2_def same_table_def)
  have "set (SUSA_val st) \<subseteq> set (SUSA_val st2)"
    by (rule SUSA_val_mono) (auto simp: S2 f2)
  with Cons.prems(2) have "\<forall>(s, a) \<in> set ps. s @ a \<in> set (SUSA_val st2)" by auto
  from Cons.IH [OF c2 this] obtain st3 where
    l: "close_loop tch S_rows ps st2 = Inr st3" and c3: "coherent tch st3"
    and f3: "E st3 = E st2" "T st3 = T st2" "A st3 = A st2"
    and S3: "S st3 = fold ns_add (new_words tch st2 S_rows ps) (S st2)"
    by blast
  have nw: "new_words tch st2 S_rows ps = new_words tch st S_rows ps"
    by (simp add: new_words_def row_val_cong [OF f2(1)])
  have "close_loop tch S_rows (p # ps) st = Inr st3"
    using r l by (simp add: p ebind_def st2_def)
  moreover have "S st3 = fold ns_add (new_words tch st S_rows (p # ps)) (S st)"
    unfolding S3 nw S2 by (simp add: new_words_def p)
  ultimately show ?case using c3 f3 f2 by simp
qed

lemma fix_closedness_ok:
  assumes c: "coherent tch st"
  shows "\<exists>st'. fix_closedness tch st = Inr st' \<and> coherent tch st' \<and> E st' = E st \<and>
           T st' = T st \<and> A st' = A st \<and>
           S st' = fold ns_add (new_words tch st (map (row_val tch st) (elems (S st)))
                                  (List.product (elems (S st)) (A st))) (S st)"
proof -
  have "set (elems (S st)) \<subseteq> set (SUSA_val st)" by (auto simp: set_SUSA_val)
  from get_rows_ok [OF c this] obtain st1 where
    r: "get_rows tch (elems (S st)) st = Inr (map (row_val tch st) (elems (S st)), st1)"
    and t1: "same_table st1 st" and c1: "coherent tch st1"
    by blast
  have "\<forall>(s, a) \<in> set (List.product (elems (S st)) (A st)). s @ a \<in> set (SUSA_val st1)"
    by (auto simp: same_table_vals [OF t1] intro: SA_in_SUSA)
  from close_loop_ok [OF c1 this, of "map (row_val tch st) (elems (S st))"] obtain st2 where
    l: "close_loop tch (map (row_val tch st) (elems (S st))) (List.product (elems (S st)) (A st)) st1 = Inr st2"
    and c2: "coherent tch st2" and f2: "E st2 = E st1" "T st2 = T st1" "A st2 = A st1"
    and S2: "S st2 = fold ns_add
       (new_words tch st1 (map (row_val tch st) (elems (S st))) (List.product (elems (S st)) (A st))) (S st1)"
    by blast
  have nw: "new_words tch st1 = new_words tch st"
    by (simp add: new_words_def fun_eq_iff same_table_vals [OF t1])
  have "fix_closedness tch st = Inr st2"
    using r l t1 by (simp add: fix_closedness_def ebind_def same_table_def)
  with c2 f2 S2 t1 show ?thesis by (simp add: nw same_table_def)
qed

lemma step_ok:
  assumes c: "coherent tch st"
  shows "\<exists>st'. step tch st = Inr st' \<and> coherent tch st' \<and> T st' = T st \<and> A st' = A st \<and>
           E st' = (if consistent_val tch st then E st
                    else case List.find (\<lambda>((s1, s2), (a, e)).
                             member_query tch (s1 @ a @ e) \<noteq> member_query tch (s2 @ a @ e))
                           (List.product (eqrows_val tch st) (List.product (A st) (elems (E st)))) of
                           None \<Rightarrow> E st
                         | Some ((s1, s2), (a, e)) \<Rightarrow> ns_add (a @ e) (E st)) \<and>
           S st' =
             (if closed_val tch st then S st
              else fold ns_add (new_words tch st' (map (row_val tch st') (elems (S st)))
                                  (List.product (elems (S st)) (A st))) (S st))"
proof -
  from is_consistent_ok [OF c] obtain st1 where
    r1: "is_consistent tch st = Inr (consistent_val tch st, st1)" and t1: "same_table st1 st"
    and c1: "coherent tch st1" by blast
  from is_closed_ok [OF c1] obtain st2 where
    r2: "is_closed tch st1 = Inr (closed_val tch st1, st2)" and t2: "same_table st2 st1"
    and c2: "coherent tch st2" by blast
  have t20: "same_table st2 st" by (rule same_table_trans [OF t2 t1])
  let ?E' = "(if consistent_val tch st then E st
                    else case List.find (\<lambda>((s1, s2), (a, e)).
                             member_query tch (s1 @ a @ e) \<noteq> member_query tch (s2 @ a @ e))
                           (List.product (eqrows_val tch st) (List.product (A st) (elems (E st)))) of
                           None \<Rightarrow> E st
                         | Some ((s1, s2), (a, e)) \<Rightarrow> ns_add (a @ e) (E st))"
  have "\<exists>st3. (if \<not> consistent_val tch st then fix_consistency tch st2 else Inr st2) = Inr st3 \<and>
          coherent tch st3 \<and> S st3 = S st \<and> T st3 = T st \<and> A st3 = A st \<and> E st3 = ?E'"
  proof (cases "consistent_val tch st")
    case True
    then show ?thesis using c2 t20 by (simp add: same_table_def)
  next
    case False
    have e: "S st2 = S st" "E st2 = E st" "T st2 = T st" "A st2 = A st"
      using t20 by (simp_all add: same_table_def)
    from fix_consistency_ok [OF c2] False show ?thesis
      unfolding same_table_vals [OF t20] e by simp
  qed
  then obtain st3 where
    r3: "(if \<not> consistent_val tch st then fix_consistency tch st2 else Inr st2) = Inr st3"
    and c3: "coherent tch st3" and f3: "S st3 = S st" "T st3 = T st" "A st3 = A st" "E st3 = ?E'"
    by blast
  have step: "step tch st =
      (if \<not> closed_val tch st then fix_closedness tch st3 else Inr st3)"
    using r1 r2 r3 by (simp add: step_def ebind_def same_table_vals [OF t1])
  show ?thesis
  proof (cases "closed_val tch st")
    case True
    with step c3 f3 show ?thesis by simp
  next
    case False
    from fix_closedness_ok [OF c3] obtain st4 where
      r4: "fix_closedness tch st3 = Inr st4" and c4: "coherent tch st4"
      and f4: "E st4 = E st3" "T st4 = T st3" "A st4 = A st3"
      and S4: "S st4 = fold ns_add (new_words tch st3 (map (row_val tch st3) (elems (S st3)))
                    (List.product (elems (S st3)) (A st3))) (S st3)"
      by blast
    have rv: "row_val tch st3 = row_val tch st4"
      by (simp add: fun_eq_iff row_val_cong [OF f4(1)])
    have nw: "new_words tch st3 = new_words tch st4"
      by (simp add: new_words_def fun_eq_iff rv)
    from False step r4 c4 f4 f3 S4 show ?thesis
      by (simp add: rv nw)
  qed
qed


lemma edges_loop_ok:
  assumes "coherent tch st" and "\<forall>a \<in> set as. s @ [a] \<in> set (SUSA_val st)"
  shows "\<exists>st'. edges_loop tch s (row_val tch st s) as sts st = Inr (edges_val tch st s as sts, st') \<and>
           same_table st' st \<and> coherent tch st'"
  using assms
proof (induction as arbitrary: st sts)
  case Nil
  then show ?case by (simp add: edges_val_def same_table_def)
next
  case (Cons a as)
  from Cons.prems have m: "s @ [a] \<in> set (SUSA_val st)" by simp
  from get_row_ok [OF Cons.prems(1) m] obtain st1 where
    r: "get_row tch st (s @ [a]) = Inr (row_val tch st (s @ [a]), st1)" and t1: "same_table st1 st"
    and c1: "coherent tch st1" by blast
  let ?sts = "put_edge sts (row_val tch st s) a (member_query tch (s @ [a])) (row_val tch st (s @ [a]))"
  have "\<forall>a \<in> set as. s @ [a] \<in> set (SUSA_val st1)"
    using Cons.prems(2) by (simp add: same_table_vals [OF t1])
  from Cons.IH [OF c1 this, of ?sts] obtain st2 where
    l: "edges_loop tch s (row_val tch st1 s) as ?sts st1 = Inr (edges_val tch st1 s as ?sts, st2)"
    and t2: "same_table st2 st1" and c2: "coherent tch st2" by blast
  have ev: "edges_val tch st1 = edges_val tch st"
    by (simp add: edges_val_def fun_eq_iff same_table_vals [OF t1])
  have "edges_loop tch s (row_val tch st s) (a # as) sts st = Inr (edges_val tch st s (a # as) sts, st2)"
    using r l unfolding ev same_table_vals [OF t1]
    by (simp add: ebind_def query_def edges_val_def)
  with same_table_trans [OF t2 t1] c2 show ?case by blast
qed

lemma states_loop_ok:
  assumes "coherent tch st" and "set ss \<subseteq> set (elems (S st))" and "\<forall>a \<in> set as. [a] \<in> set (A st)"
  shows "\<exists>st'. states_loop tch as ss [] sts st = Inr (states_val tch st as ss sts, st') \<and>
           same_table st' st \<and> coherent tch st'"
  using assms
proof (induction ss arbitrary: st sts)
  case Nil
  then show ?case by (simp add: states_val_def same_table_def)
next
  case (Cons s ss)
  from Cons.prems have sS: "s \<in> set (elems (S st))" by simp
  from get_row_ok [OF Cons.prems(1) S_in_SUSA [OF sS]] obtain st1 where
    r: "get_row tch st s = Inr (row_val tch st s, st1)" and t1: "same_table st1 st"
    and c1: "coherent tch st1" by blast
  have "\<forall>a \<in> set as. s @ [a] \<in> set (SUSA_val st1)"
    using Cons.prems(3) sS by (auto simp: same_table_vals [OF t1] intro: SA_in_SUSA)
  from edges_loop_ok [OF c1 this, of sts] obtain st2 where
    e: "edges_loop tch s (row_val tch st1 s) as sts st1 = Inr (edges_val tch st1 s as sts, st2)"
    and t2: "same_table st2 st1" and c2: "coherent tch st2" by blast
  have t20: "same_table st2 st" by (rule same_table_trans [OF t2 t1])
  have p2: "set ss \<subseteq> set (elems (S st2))" "\<forall>a \<in> set as. [a] \<in> set (A st2)"
    using Cons.prems(2,3) t20 by (simp_all add: same_table_def)
  from Cons.IH [OF c2 p2, of "edges_val tch st1 s as sts"] obtain st3 where
    l: "states_loop tch as ss [] (edges_val tch st1 s as sts) st2 =
          Inr (states_val tch st2 as ss (edges_val tch st1 s as sts), st3)"
    and t3: "same_table st3 st2" and c3: "coherent tch st3" by blast
  have ev: "edges_val tch st1 = edges_val tch st"
    by (simp add: edges_val_def fun_eq_iff same_table_vals [OF t1])
  have sv: "states_val tch st2 = states_val tch st"
    by (simp add: states_val_def edges_val_def fun_eq_iff same_table_vals [OF t20])
  have "states_loop tch as (s # ss) [] sts st = Inr (states_val tch st as (s # ss) sts, st3)"
    using r e l unfolding ev sv same_table_vals [OF t1]
    by (simp add: ebind_def states_val_def)
  with same_table_trans [OF t3 t20] c3 show ?case by blast
qed

lemma unpack_A_ok: "\<forall>w \<in> set ws. length w = 1 \<Longrightarrow> unpack_A ws = Inr (concat ws)"
proof (induction ws)
  case Nil
  then show ?case by simp
next
  case (Cons w ws)
  then obtain x where "w = [x]" by (cases w) auto
  with Cons show ?case by (simp add: ebind_def)
qed

lemma dom_new_states: "(new_states (state_names rows) r = None) = (r \<notin> set rows)"
proof -
  have key: "fst ` set (map (\<lambda>(n, state_row). (state_row, f n)) (enumerate k xs)) = set xs"
    for f :: "nat \<Rightarrow> string" and k and xs :: "'b list list"
    by (induction xs arbitrary: k) simp_all
  show ?thesis
    unfolding new_states_def state_names_def
    using key [of "\<lambda>n. CHR ''s'' # string_of_nat (n + 1)" 0 rows]
    by (simp add: map_of_eq_None_iff)
qed

lemma build_dfa_ok:
  assumes c: "coherent tch st" and e: "[] \<in> set (elems (S st))"
    and a: "\<forall>w \<in> set (A st). length w = 1"
  shows "\<exists>st'. build_dfa tch st = Inr (hypothesis_val tch st, st') \<and> same_table st' st \<and>
           coherent tch st'"
proof -
  have "set (elems (S st)) \<subseteq> set (SUSA_val st)" by (auto simp: set_SUSA_val)
  from get_rows_ok [OF c this] obtain st1 where
    r: "get_rows tch (elems (S st)) st = Inr (map (row_val tch st) (elems (S st)), st1)"
    and t1: "same_table st1 st" and c1: "coherent tch st1"
    by blast
  have "[] \<in> set (SUSA_val st1)" using e by (simp add: same_table_vals [OF t1] S_in_SUSA)
  from get_row_ok [OF c1 this] obtain st2 where
    r0: "get_row tch st1 [] = Inr (row_val tch st1 [], st2)" and t2: "same_table st2 st1"
    and c2: "coherent tch st2" by blast
  have t20: "same_table st2 st" by (rule same_table_trans [OF t2 t1])
  let ?rows = "map (row_val tch st) (elems (S st))"
  let ?sts = "new_states (state_names (remdups ?rows)) :: 'b list \<rightharpoonup> ('a, 'b, 'b list) mealy_state"
  have "row_val tch st [] \<in> set (remdups ?rows)" using e by simp
  then have "?sts (row_val tch st []) \<noteq> None"
    by (simp only: dom_new_states not_not)
  then obtain initial where i: "?sts (row_val tch st []) = Some initial"
    by blast
  have u: "unpack_A (A st2) = Inr (concat (A st))"
    using a t20 unpack_A_ok [of "A st"] by (simp add: same_table_def)
  have p: "set (elems (S st)) \<subseteq> set (elems (S st2))" "\<forall>a \<in> set (concat (A st)). [a] \<in> set (A st2)"
  proof -
    show "set (elems (S st)) \<subseteq> set (elems (S st2))" using t20 by (simp add: same_table_def)
    show "\<forall>a \<in> set (concat (A st)). [a] \<in> set (A st2)"
    proof
      fix x assume "x \<in> set (concat (A st))"
      then obtain w where w: "w \<in> set (A st)" "x \<in> set w" by auto
      with a have "length w = 1" by simp
      then have "w = [x]" using w(2) by (cases w) auto
      with w t20 show "[x] \<in> set (A st2)" by (simp add: same_table_def)
    qed
  qed
  from states_loop_ok [OF c2 p, of "?sts"] obtain st3 where
    l: "states_loop tch (concat (A st)) (elems (S st)) [] (?sts) st2 =
          Inr (states_val tch st2 (concat (A st)) (elems (S st)) (?sts), st3)"
    and t3: "same_table st3 st2" and c3: "coherent tch st3" by blast
  have sv: "states_val tch st2 = states_val tch st"
    by (simp add: states_val_def edges_val_def fun_eq_iff same_table_vals [OF t20])
  have S2: "S st2 = S st" using t20 by (simp add: same_table_def)
  have "build_dfa tch st = Inr (hypothesis_val tch st, st3)"
    using r r0 i u l unfolding sv same_table_vals [OF t1] S2
    by (simp add: build_dfa_def ebind_def Let_def hypothesis_val_def S2)
  with same_table_trans [OF t3 t20] c3 show ?thesis by blast
qed


lemma put_edge_None [simp]: "(put_edge sts r a out t r' = None) = (sts r' = None)"
  by (auto simp: put_edge_def split: option.splits sum.splits)

lemma edge_of_put_edge:
  "edge_of (put_edge sts r a out t) r' a' =
     (if r' = r \<and> a' = a \<and> sts t \<noteq> None \<and> sts r \<noteq> None \<and> edge_of sts r a = None
      then Some (t, out) else edge_of sts r' a')"
  by (auto simp: put_edge_def edge_of_def add_edge_def split: option.splits sum.splits if_splits)

lemma edges_val_None [simp]: "(edges_val tch st s as sts r' = None) = (sts r' = None)"
  by (induction as arbitrary: sts) (simp_all add: edges_val_def)

lemma states_val_None [simp]: "(states_val tch st as ss sts r' = None) = (sts r' = None)"
  by (induction ss arbitrary: sts) (simp_all add: states_val_def)

lemma edge_of_edges_val:
  "edge_of (edges_val tch st s as sts) r' a' =
     (case edge_of sts r' a' of
        Some e \<Rightarrow> Some e
      | None \<Rightarrow>
          if r' = row_val tch st s \<and> a' \<in> set as \<and> sts (row_val tch st (s @ [a'])) \<noteq> None \<and>
             sts r' \<noteq> None
          then Some (row_val tch st (s @ [a']), member_query tch (s @ [a'])) else None)"
proof (induction as arbitrary: sts)
  case Nil
  show ?case by (simp add: edges_val_def split: option.splits)
next
  case (Cons a as)
  have unfold: "edges_val tch st s (a # as) sts =
      edges_val tch st s as (put_edge sts (row_val tch st s) a (member_query tch (s @ [a]))
                               (row_val tch st (s @ [a])))"
    by (simp add: edges_val_def)
  show ?case
    unfolding unfold Cons.IH edge_of_put_edge
    by (auto split: option.splits)
qed

lemma edge_of_states_val:
  "edge_of (states_val tch st as ss sts) r a =
     (case edge_of sts r a of
        Some e \<Rightarrow> Some e
      | None \<Rightarrow>
          if a \<in> set as \<and> sts r \<noteq> None
          then map_option (\<lambda>s. (row_val tch st (s @ [a]), member_query tch (s @ [a])))
                 (List.find (\<lambda>s. row_val tch st s = r \<and> sts (row_val tch st (s @ [a])) \<noteq> None) ss)
          else None)"
proof (induction ss arbitrary: sts)
  case Nil
  show ?case by (simp add: states_val_def split: option.splits)
next
  case (Cons s ss)
  have unfold: "states_val tch st as (s # ss) sts = states_val tch st as ss (edges_val tch st s as sts)"
    by (simp add: states_val_def)
  show ?case
    unfolding unfold Cons.IH edge_of_edges_val
    by (auto split: option.splits)
qed

lemma edge_of_new_states [simp]: "edge_of (new_states names) r a = None"
  by (simp add: edge_of_def new_states_def MealyState_def split: option.splits)

lemma hypothesis_edges:
  "edge_of (states (hypothesis_val tch st)) r a =
     (if a \<in> set (concat (A st)) then first_edge tch st (elems (S st)) r a else None)"
proof -
  let ?rows = "map (row_val tch st) (elems (S st))"
  have dom: "(\<exists>y. new_states (state_names (remdups ?rows)) r' = Some y) = (r' \<in> set ?rows)"
    "(new_states (state_names (remdups ?rows)) r' = None) = (r' \<notin> set ?rows)" for r'
    using dom_new_states [of "remdups ?rows" r'] by auto
  have "List.find (\<lambda>s. row_val tch st s = r \<and> row_val tch st (s @ [a]) \<in> set ?rows) ss = None"
    if "r \<notin> set ?rows" and "set ss \<subseteq> set (elems (S st))" for ss
    using that by (induction ss) auto
  then have none: "first_edge tch st (elems (S st)) r a = None" if "r \<notin> set ?rows"
    using that by (simp add: first_edge_def)
  show ?thesis
    unfolding hypothesis_val_def
    using none
    by (simp add: edge_of_states_val dom first_edge_def)
qed

lemma hypothesis_dom:
  "(states (hypothesis_val tch st) r = None) = (r \<notin> set (map (row_val tch st) (elems (S st))))"
  using dom_new_states [of "remdups (map (row_val tch st) (elems (S st)))" r]
  by (simp add: hypothesis_val_def)

section \<open>L*: the table invariant\<close>

lemma set_elems_fold_ns_add: "set (elems (fold ns_add xs ns)) = set xs \<union> set (elems ns)"
  by (induction xs arbitrary: ns) auto

lemma lstar_inv_init: "lstar_inv tch (lstar_init tch)"
  using coherent_init [of tch]
  by (simp add: lstar_inv_def lstar_init_def Let_def set_elems_fold_ns_add)

lemma fold_add_S:
  "fold (\<lambda>i st'. st'\<lparr>S := ns_add (f i) (S st')\<rparr>) js st = st\<lparr>S := fold ns_add (map f js) (S st)\<rparr>"
  by (induction js arbitrary: st) simp_all

lemma coherent_fold_add_S: "coherent tch st \<Longrightarrow> coherent tch (st\<lparr>S := fold ns_add xs (S st)\<rparr>)"
proof (induction xs arbitrary: st)
  case Nil
  then show ?case by simp
next
  case (Cons x xs)
  from Cons.IH [OF coherent_add_S [OF Cons.prems, of x]] show ?case by simp
qed

lemma add_prefixes_eq:
  "add_prefixes w st = st\<lparr>S := fold ns_add (map (\<lambda>i. take i w) [1..<length w + 1]) (S st)\<rparr>"
  unfolding add_prefixes_def by (rule fold_add_S)

lemma lstar_inv_add_prefixes: "lstar_inv tch st \<Longrightarrow> lstar_inv tch (add_prefixes w st)"
  by (simp add: lstar_inv_def add_prefixes_eq coherent_fold_add_S set_elems_fold_ns_add)

lemma lstar_inv_same_table:
  "lstar_inv tch st \<Longrightarrow> same_table st' st \<Longrightarrow> coherent tch st' \<Longrightarrow> lstar_inv tch st'"
  by (simp add: lstar_inv_def same_table_def)

lemma lstar_inv_singletons: "lstar_inv tch st \<Longrightarrow> \<forall>w \<in> set (A st). length w = 1"
  by (auto simp: lstar_inv_def)

lemma get_row_frame:
  assumes c: "coherent tch st" and r: "get_row tch st s = Inr (row, st')"
  shows "same_table st' st \<and> coherent tch st'"
proof (cases "s \<in> set (SUSA_val st)")
  case True
  from get_row_ok [OF c True] r show ?thesis by auto
next
  case False
  let ?cs = "(change_counter (S st), change_counter (E st))"
  let ?good = "\<lambda>s r. s \<in> set (SUSA_val st) \<and> r = row_val tch st s"
  define st2 where "st2 = (if watch_get_row st = Some ?cs then st
       else st\<lparr>mem_get_row := Some Map.empty, watch_get_row := Some ?cs\<rparr>)"
  have pos: "0 < change_counter (S st)" using c by (simp add: coherent_def)
  have t2: "same_table st2 st" by (simp add: st2_def same_table_def)
  have ok2: "cache_SE_ok (Some ?cs) (mem_get_row st2) ?cs ?good"
  proof (cases "watch_get_row st = Some ?cs")
    case True
    have "cache_SE_ok (watch_get_row st) (mem_get_row st) ?cs ?good"
      using c by (simp add: coherent_def)
    with True show ?thesis by (simp add: st2_def)
  next
    case False
    then show ?thesis by (simp add: st2_def cache_SE_ok_reset)
  qed
  have c2: "coherent tch st2"
  proof (cases "watch_get_row st = Some ?cs")
    case True
    then show ?thesis using c by (simp add: st2_def)
  next
    case False
    then show ?thesis using c by (simp add: st2_def coherent_def cache_SE_ok_reset)
  qed
  from cache_SE_ok_hit [OF ok2] obtain m where m: "mem_get_row st2 = Some m"
    and good: "\<And>k v. m k = Some v \<Longrightarrow> k \<in> set (SUSA_val st) \<and> v = row_val tch st k"
    by blast
  from good [of s] False have miss: "m s = None" by (cases "m s") auto
  from SUSA_ok [OF c2] obtain st3 where
    susa: "SUSA st2 = Inr (SUSA_val st2, st3)" by blast
  have "get_row_body tch s st2 = Inl RowError"
    using susa False by (simp add: get_row_body_def ebind_def same_table_vals [OF t2])
  then have "get_row tch st s = Inl RowError"
    using m miss by (simp add: get_row_unfold [OF pos] st2_def [symmetric] ebind_def)
  with r show ?thesis by simp
qed

lemma lstar_inv_op:
  assumes i: "lstar_inv tch st" and o: "lstar_op tch st st'"
  shows "lstar_inv tch st' \<and> set (elems (S st)) \<subseteq> set (elems (S st')) \<and>
         set (elems (E st)) \<subseteq> set (elems (E st')) \<and> T st' = T st"
  using o
proof cases
  case op_step
  from i have c: "coherent tch st" by (simp add: lstar_inv_def)
  from step_ok [OF c] op_step have c': "coherent tch st'" and f: "T st' = T st" "A st' = A st"
    and E': "E st' = (if consistent_val tch st then E st
                    else case List.find (\<lambda>((s1, s2), (a, e)).
                             member_query tch (s1 @ a @ e) \<noteq> member_query tch (s2 @ a @ e))
                           (List.product (eqrows_val tch st) (List.product (A st) (elems (E st)))) of
                           None \<Rightarrow> E st
                         | Some ((s1, s2), (a, e)) \<Rightarrow> ns_add (a @ e) (E st))"
    and S': "S st' =
             (if closed_val tch st then S st
              else fold ns_add (new_words tch st' (map (row_val tch st') (elems (S st)))
                                  (List.product (elems (S st)) (A st))) (S st))"
    by auto
  have sS: "set (elems (S st)) \<subseteq> set (elems (S st'))"
    unfolding S' by (auto simp: set_elems_fold_ns_add)
  have sE: "set (elems (E st)) \<subseteq> set (elems (E st'))"
    unfolding E' by (auto split: option.splits)
  have e: "[] \<in> set (elems (S st'))" using i sS by (auto simp: lstar_inv_def)
  have a: "A st' = remdups (map (\<lambda>x. [x]) (get_alphabet tch))" using i f by (simp add: lstar_inv_def)
  have "\<forall>x \<in> set (get_alphabet tch). [x] \<in> set (elems (E st))" using i by (simp add: lstar_inv_def)
  with sE have ae: "\<forall>x \<in> set (get_alphabet tch). [x] \<in> set (elems (E st'))" by blast
  from c' e a ae have "lstar_inv tch st'" by (simp add: lstar_inv_def)
  with f sS sE show ?thesis by simp
next
  case (op_build_dfa h)
  from i have c: "coherent tch st" and e: "[] \<in> set (elems (S st))" by (simp_all add: lstar_inv_def)
  from build_dfa_ok [OF c e lstar_inv_singletons [OF i]] op_build_dfa
  have "same_table st' st" "coherent tch st'" by auto
  with i show ?thesis by (auto simp: lstar_inv_same_table same_table_def)
next
  case (op_counterexample w)
  with i show ?thesis
    by (auto simp: lstar_inv_add_prefixes) (simp_all add: add_prefixes_eq set_elems_fold_ns_add)
next
  case (op_is_closed b)
  from i have c: "coherent tch st" by (simp add: lstar_inv_def)
  from is_closed_ok [OF c] op_is_closed have "same_table st' st" "coherent tch st'" by auto
  with i show ?thesis by (auto simp: lstar_inv_same_table same_table_def)
next
  case (op_is_consistent b)
  from i have c: "coherent tch st" by (simp add: lstar_inv_def)
  from is_consistent_ok [OF c] op_is_consistent have "same_table st' st" "coherent tch st'" by auto
  with i show ?thesis by (auto simp: lstar_inv_same_table same_table_def)
next
  case (op_get_row s r)
  from i have c: "coherent tch st" by (simp add: lstar_inv_def)
  from get_row_frame [OF c op_get_row] have "same_table st' st" "coherent tch st'" by auto
  with i show ?thesis by (auto simp: lstar_inv_same_table same_table_def)
qed

lemma lstar_inv_reachable:
  "lstar_reachable tch st \<Longrightarrow> lstar_inv tch st \<and> T st = Map.empty"
  unfolding lstar_reachable_def
proof (induction rule: rtranclp_induct)
  case base
  show ?case using lstar_inv_init [of tch] by (simp add: lstar_init_def Let_def)
next
  case (step y z)
  with lstar_inv_op [of tch y z] show ?case by simp
qed

section \<open>L*: facts about the example teachers\<close>

lemma value_of_Inr [simp]: "value_of (Inr (v, st)) = Inr v"
  by (simp add: value_of_def)

lemma length_sul_outputs [simp]: "length (sul_outputs q w) = length w"
  by (induction w arbitrary: q) simp_all

lemma word_init_fields:
  "elems (S (lstar_init word_teacher)) = [[]]"
  "elems (E (lstar_init word_teacher)) = [''a'', ''b'']"
  "A (lstar_init word_teacher) = [''a'', ''b'']"
  "T (lstar_init word_teacher) = Map.empty"
  by (simp_all add: lstar_init_def word_teacher_def Let_def ns_add_def NotifierSet_def)

lemma word_member_query [simp]: "member_query word_teacher = sul_outputs 0"
  by (simp add: word_teacher_def)

lemma reachable_init: "lstar_reachable tch (lstar_init tch)"
  by (simp add: lstar_reachable_def)

lemma word_init_vals:
  "consistent_val word_teacher (lstar_init word_teacher)"
  "\<not> closed_val word_teacher (lstar_init word_teacher)"
  "row_val word_teacher (lstar_init word_teacher) s = [sul_outputs 0 (s @ ''a''), sul_outputs 0 (s @ ''b'')]"
  by (simp_all add: consistent_val_def eqrows_val_def closed_val_def row_val_def SA_val_def
      word_init_fields list_union_def sul_step_def)

lemma word_init_S: "S (lstar_init word_teacher) = \<lparr>elems = [[]], change_counter = 1\<rparr>"
  by (simp add: lstar_init_def ns_add_def NotifierSet_def Let_def)

lemma word_init_step:
  "\<exists>st'. step word_teacher (lstar_init word_teacher) = Inr st' \<and>
     E st' = E (lstar_init word_teacher) \<and> elems (S st') = [[], ''a'', ''b'']"
proof -
  let ?I = "lstar_init word_teacher"
  from step_ok [OF coherent_init, of word_teacher] obtain st' where
    s: "step word_teacher ?I = Inr st'"
    and E': "E st' = E ?I"
    and S': "S st' = fold ns_add (new_words word_teacher st' (map (row_val word_teacher st') (elems (S ?I)))
                                  (List.product (elems (S ?I)) (A ?I))) (S ?I)"
    by (auto simp: word_init_vals)
  have rv: "row_val word_teacher st' = row_val word_teacher ?I"
    by (simp add: fun_eq_iff row_val_cong [OF E'])
  have nw: "new_words word_teacher st' = new_words word_teacher ?I"
    by (simp add: fun_eq_iff new_words_def rv)
  have "elems (S st') = [[], ''a'', ''b'']"
    unfolding S' rv nw
    by (simp add: new_words_def word_init_vals word_init_fields word_init_S ns_add_def sul_step_def)
  with s E' show ?thesis by blast
qed

lemma is_closed_False:
  assumes "lstar_reachable tch st" and "value_of (is_closed tch st) = Inr False"
  shows "\<not> closed_val tch st"
proof -
  from lstar_inv_reachable [OF assms(1)] have c: "coherent tch st" by (simp add: lstar_inv_def)
  from is_closed_ok [OF c] assms(2) show ?thesis by auto
qed

lemma symbol_member_query [simp]: "member_query symbol_teacher w = last (0 # sul_outputs 0 w)"
  by (simp add: symbol_teacher_def)

lemma symbol_alphabet [simp]: "get_alphabet symbol_teacher = ''a''"
  by (simp add: symbol_teacher_def)

lemma word_alphabet [simp]: "get_alphabet word_teacher = ''ab''"
  by (simp add: word_teacher_def)

lemma symbol_init_fields:
  "S (lstar_init symbol_teacher) = \<lparr>elems = [[]], change_counter = 1\<rparr>"
  "E (lstar_init symbol_teacher) = \<lparr>elems = [''a''], change_counter = 1\<rparr>"
  "A (lstar_init symbol_teacher) = [''a'']"
  by (simp_all add: lstar_init_def Let_def ns_add_def NotifierSet_def)

lemma word_init_E: "E (lstar_init word_teacher) = \<lparr>elems = [''a'', ''b''], change_counter = 2\<rparr>"
  by (simp add: lstar_init_def Let_def ns_add_def NotifierSet_def)

lemma reachable_add_prefixes: "lstar_reachable tch st \<Longrightarrow> lstar_reachable tch (add_prefixes w st)"
  unfolding lstar_reachable_def using op_counterexample [of tch st w]
  by (meson rtranclp.rtrancl_into_rtrancl)

lemma add_prefixes_fields [simp]:
  "E (add_prefixes w st) = E st" "A (add_prefixes w st) = A st" "T (add_prefixes w st) = T st"
  by (simp_all add: add_prefixes_eq)

lemma add_prefixes_S:
  "S (add_prefixes w st) = fold ns_add (map (\<lambda>i. take i w) [1..<length w + 1]) (S st)"
  by (simp add: add_prefixes_eq)

lemma prefixes_of_aa: "map (\<lambda>i. take i ''aa'') [1..<length ''aa'' + 1] = [''a'', ''aa'']"
  by (simp add: upt_conv_Cons)

lemma prefixes_of_aaa:
  "map (\<lambda>i. take i ''aaa'') [1..<length ''aaa'' + 1] = [''a'', ''aa'', ''aaa'']"
  by (simp add: upt_conv_Cons)

lemma symbol_aa_fields:
  "elems (S (add_prefixes ''aa'' (lstar_init symbol_teacher))) = [[], ''a'', ''aa'']"
  "elems (E (add_prefixes ''aa'' (lstar_init symbol_teacher))) = [''a'']"
  by (simp_all add: add_prefixes_S prefixes_of_aa symbol_init_fields ns_add_def)

lemma symbol_aa_rows:
  "row_val symbol_teacher (add_prefixes ''aa'' (lstar_init symbol_teacher)) [] = [0]"
  "row_val symbol_teacher (add_prefixes ''aa'' (lstar_init symbol_teacher)) ''a'' = [0]"
  "row_val symbol_teacher (add_prefixes ''aa'' (lstar_init symbol_teacher)) ''aa'' = [1]"
  "row_val symbol_teacher (add_prefixes ''aa'' (lstar_init symbol_teacher)) ''aaa'' = [1]"
  by (simp_all add: row_val_def symbol_init_fields sul_step_def)

lemma word_aa_fields:
  "elems (S (add_prefixes ''aa'' (lstar_init word_teacher))) = [[], ''a'', ''aa'']"
  "elems (E (add_prefixes ''aa'' (lstar_init word_teacher))) = [''a'', ''b'']"
  by (simp_all add: add_prefixes_S prefixes_of_aa word_init_S word_init_E ns_add_def)

lemma word_aa_rows:
  "row_val word_teacher (add_prefixes ''aa'' (lstar_init word_teacher)) [] = [[0], [0]]"
  "row_val word_teacher (add_prefixes ''aa'' (lstar_init word_teacher)) ''a'' = [[0, 0], [0, 0]]"
  "row_val word_teacher (add_prefixes ''aa'' (lstar_init word_teacher)) ''aa'' = [[0, 0, 1], [0, 0, 0]]"
  by (simp_all add: row_val_def word_init_E sul_step_def)

lemma symbol_init_vals:
  "closed_val symbol_teacher (lstar_init symbol_teacher)"
  "consistent_val symbol_teacher (lstar_init symbol_teacher)"
  "row_val symbol_teacher (lstar_init symbol_teacher) [] = [0]"
  "row_val symbol_teacher (lstar_init symbol_teacher) ''a'' = [0]"
  by (simp_all add: closed_val_def consistent_val_def eqrows_val_def row_val_def SA_val_def
      symbol_init_fields list_union_def sul_step_def)

section \<open>L*: closed and consistent tables, and the hypothesis\<close>

lemma combinations2_complete:
  "x \<in> set xs \<Longrightarrow> y \<in> set xs \<Longrightarrow> x \<noteq> y \<Longrightarrow>
   (x, y) \<in> set (combinations2 xs) \<or> (y, x) \<in> set (combinations2 xs)"
  by (induction xs) auto

lemma consistent_rows:
  assumes "consistent_val tch st" and "s1 \<in> set (elems (S st))" and "s2 \<in> set (elems (S st))"
    and "row_val tch st s1 = row_val tch st s2" and "a \<in> set (A st)"
  shows "row_val tch st (s1 @ a) = row_val tch st (s2 @ a)"
proof (cases "s1 = s2")
  case True
  then show ?thesis by simp
next
  case False
  from combinations2_complete [OF assms(2,3) False]
  have "(s1, s2) \<in> set (eqrows_val tch st) \<or> (s2, s1) \<in> set (eqrows_val tch st)"
    using assms(4) by (auto simp: eqrows_val_def)
  with assms(1,5) show ?thesis
    by (auto simp: consistent_val_def list_all_iff)
qed

lemma closed_rows:
  assumes "closed_val tch st" and "s \<in> set (elems (S st))" and "a \<in> set (A st)"
  shows "row_val tch st (s @ a) \<in> set (map (row_val tch st) (elems (S st)))"
proof -
  from assms(2,3) have "s @ a \<in> set (SA_val st)" by (auto simp: set_SA_val)
  with assms(1) show ?thesis by (auto simp: closed_val_def list_all_iff)
qed

lemma same_row_same_answer:
  assumes "row_val tch st s1 = row_val tch st s2" and "e \<in> set (elems (E st))"
  shows "member_query tch (s1 @ e) = member_query tch (s2 @ e)"
  using assms by (simp add: row_val_def)

lemma lstar_inv_alphabet:
  assumes "lstar_inv tch st"
  shows "set (concat (A st)) = set (get_alphabet tch)"
    and "([x] \<in> set (A st)) = (x \<in> set (get_alphabet tch))"
  using assms by (auto simp: lstar_inv_def)

lemma build_dfa_reachable:
  assumes "lstar_reachable tch st"
  shows "\<exists>st'. build_dfa tch st = Inr (hypothesis_val tch st, st') \<and> same_table st' st \<and>
           coherent tch st'"
proof -
  from lstar_inv_reachable [OF assms] have i: "lstar_inv tch st" by simp
  then have c: "coherent tch st" and e: "[] \<in> set (elems (S st))" by (simp_all add: lstar_inv_def)
  from build_dfa_ok [OF c e lstar_inv_singletons [OF i]] show ?thesis .
qed

lemma hypothesis_val_cong:
  assumes t: "same_table st' st"
  shows "hypothesis_val tch st' = hypothesis_val tch st"
  using t unfolding hypothesis_val_def states_val_def edges_val_def same_table_vals [OF t]
  by (simp add: same_table_def)

lemma refine_ready:
  assumes c: "coherent tch st" and cl: "closed_val tch st" and co: "consistent_val tch st"
  shows "\<exists>st'. refine (Suc n) tch st = Some (Inr st') \<and> same_table st' st \<and> coherent tch st'"
proof -
  from is_closed_ok [OF c] obtain st1 where
    r1: "is_closed tch st = Inr (closed_val tch st, st1)" and t1: "same_table st1 st"
    and c1: "coherent tch st1" by blast
  from is_consistent_ok [OF c1] obtain st2 where
    r2: "is_consistent tch st1 = Inr (consistent_val tch st1, st2)" and t2: "same_table st2 st1"
    and c2: "coherent tch st2" by blast
  have "refine (Suc n) tch st = Some (Inr st2)"
    using r1 r2 cl co by (simp add: refine.simps same_table_vals [OF t1])
  with same_table_trans [OF t2 t1] c2 show ?thesis by blast
qed

lemma refine_unready:
  assumes c: "coherent tch st" and n: "\<not> (closed_val tch st \<and> consistent_val tch st)"
  shows "\<exists>st1 st'. same_table st1 st \<and> coherent tch st1 \<and> step tch st1 = Inr st' \<and>
           refine (Suc n) tch st = refine n tch st'"
proof -
  from is_closed_ok [OF c] obtain st1 where
    r1: "is_closed tch st = Inr (closed_val tch st, st1)" and t1: "same_table st1 st"
    and c1: "coherent tch st1" by blast
  show ?thesis
  proof (cases "closed_val tch st")
    case False
    from step_ok [OF c1] obtain st' where s: "step tch st1 = Inr st'" by blast
    have "refine (Suc n) tch st = refine n tch st'"
      using r1 False s by (simp add: refine.simps)
    with t1 c1 s show ?thesis by blast
  next
    case True
    from is_consistent_ok [OF c1] obtain st2 where
      r2: "is_consistent tch st1 = Inr (consistent_val tch st1, st2)" and t2: "same_table st2 st1"
      and c2: "coherent tch st2" by blast
    from step_ok [OF c2] obtain st' where s: "step tch st2 = Inr st'" by blast
    have "refine (Suc n) tch st = refine n tch st'"
      using r1 r2 True n s by (simp add: refine.simps same_table_vals [OF t1])
    with same_table_trans [OF t2 t1] c2 s show ?thesis by blast
  qed
qed

lemma prefix_set:
  "set (map (\<lambda>i. take i w) [1..<length w + 1]) = {take i w | i. 1 \<le> i \<and> i \<le> length w}"
proof -
  have "set (map (\<lambda>i. take i w) [1..<length w + 1]) = (\<lambda>i. take i w) ` {1..<length w + 1}"
    by (simp only: set_map set_upt)
  also have "\<dots> = {take i w | i. 1 \<le> i \<and> i \<le> length w}"
    by (auto simp: less_Suc_eq_le)
  finally show ?thesis .
qed

section \<open>L*: a run of two rounds\<close>

lemma symbol_round1_edge:
  "edge_of (states (hypothesis_val symbol_teacher (lstar_init symbol_teacher))) [0] (CHR ''a'')
     = Some ([0], 0)"
  unfolding hypothesis_edges
  by (simp add: first_edge_def symbol_init_fields symbol_init_vals sul_step_def)

lemma symbol_equivalence_query:
  "equivalence_query symbol_teacher h =
     (if process_input (states h) (initial_state h) ''aaa'' = Some [0, 0, 1]
      then (True, []) else (False, ''aaa''))"
  by (simp add: symbol_teacher_def sul_step_def)

lemma symbol_round1_query:
  "equivalence_query symbol_teacher (hypothesis_val symbol_teacher (lstar_init symbol_teacher))
     = (False, ''aaa'')"
proof -
  let ?h = "hypothesis_val symbol_teacher (lstar_init symbol_teacher)"
  have i: "initial_state ?h = [0]"
    by (simp add: hypothesis_val_def symbol_init_vals)
  have "process_input (states ?h) [0] ''aaa'' = Some [0, 0, 0]"
    by (simp add: symbol_round1_edge)
  then show ?thesis
    unfolding symbol_equivalence_query i by simp
qed

lemma symbol_round2_vals:
  assumes "elems (S st) = [[], ''a'', ''aa'', ''aaa'']" and "elems (E st) = [''a'']"
    and "A st = [''a'']"
  shows "closed_val symbol_teacher st" and "\<not> consistent_val symbol_teacher st"
    and "List.find (\<lambda>((s1, s2), (a, e)).
             member_query symbol_teacher (s1 @ a @ e) \<noteq> member_query symbol_teacher (s2 @ a @ e))
           (List.product (eqrows_val symbol_teacher st) (List.product (A st) (elems (E st))))
         = Some (([], ''a''), (''a'', ''a''))"
  using assms
  by (simp_all add: closed_val_def consistent_val_def eqrows_val_def row_val_def SA_val_def
      list_union_def sul_step_def)

lemma symbol_round3_vals:
  assumes "elems (S st) = [[], ''a'', ''aa'', ''aaa'']" and "elems (E st) = [''a'', ''aa'']"
    and "A st = [''a'']"
  shows "closed_val symbol_teacher st" and "consistent_val symbol_teacher st"
    and "row_val symbol_teacher st [] = [0, 0]"
    and "row_val symbol_teacher st ''a'' = [0, 1]"
    and "row_val symbol_teacher st ''aa'' = [1, 1]"
    and "row_val symbol_teacher st ''aaa'' = [1, 1]"
  using assms
  by (simp_all add: closed_val_def consistent_val_def eqrows_val_def row_val_def SA_val_def
      list_union_def sul_step_def)

lemma symbol_round3_query:
  assumes "elems (S st) = [[], ''a'', ''aa'', ''aaa'']" and "elems (E st) = [''a'', ''aa'']"
    and "A st = [''a'']"
  shows "equivalence_query symbol_teacher (hypothesis_val symbol_teacher st) = (True, [])"
proof -
  let ?h = "hypothesis_val symbol_teacher st"
  note v = symbol_round3_vals [OF assms]
  have i: "initial_state ?h = [0, 0]"
    by (simp add: hypothesis_val_def v)
  have e: "edge_of (states ?h) [0, 0] (CHR ''a'') = Some ([0, 1], 0)"
    "edge_of (states ?h) [0, 1] (CHR ''a'') = Some ([1, 1], 0)"
    "edge_of (states ?h) [1, 1] (CHR ''a'') = Some ([1, 1], 1)"
    unfolding hypothesis_edges
    by (simp_all add: first_edge_def assms v sul_step_def)
  have "process_input (states ?h) [0, 0] ''aaa'' = Some [0, 0, 1]"
    by (simp add: e del: One_nat_def)
  then show ?thesis
    unfolding symbol_equivalence_query i by simp
qed

section \<open>L*: the claims\<close>

text \<open>
  C8. After construction and after any sequence of operations, the empty word is in S and
  every symbol of the alphabet is in E as a one-symbol word; no operation removes a member
  of S or of E.
\<close>

theorem epsilon_in_S_alphabet_in_E_always:
  assumes "lstar_reachable tch st"
  shows "[] \<in> set (elems (S st)) \<and>
         (\<forall>x \<in> set (get_alphabet tch). [x] \<in> set (elems (E st))) \<and>
         (\<forall>st'. lstar_op tch st st' \<longrightarrow>
            set (elems (S st)) \<subseteq> set (elems (S st')) \<and>
            set (elems (E st)) \<subseteq> set (elems (E st')))"
proof -
  from lstar_inv_reachable [OF assms] have i: "lstar_inv tch st" by simp
  then have "[] \<in> set (elems (S st))" and "\<forall>x \<in> set (get_alphabet tch). [x] \<in> set (elems (E st))"
    by (auto simp: lstar_inv_def)
  with lstar_inv_op [OF i] show ?thesis by blast
qed

theorem epsilon_in_S_alphabet_in_E_always_witness:
  "lstar_reachable word_teacher (lstar_init word_teacher) \<and>
   lstar_op word_teacher (lstar_init word_teacher) (add_prefixes ''ab'' (lstar_init word_teacher)) \<and>
   [] \<in> set (elems (S (lstar_init word_teacher))) \<and>
   ''a'' \<in> set (elems (E (lstar_init word_teacher))) \<and>
   ''b'' \<in> set (elems (E (lstar_init word_teacher))) \<and>
   set (elems (S (lstar_init word_teacher)))
     \<subseteq> set (elems (S (add_prefixes ''ab'' (lstar_init word_teacher)))) \<and>
   set (elems (E (lstar_init word_teacher)))
     \<subseteq> set (elems (E (add_prefixes ''ab'' (lstar_init word_teacher))))"
proof -
  have r: "lstar_reachable word_teacher (lstar_init word_teacher)" by (rule reachable_init)
  have o: "lstar_op word_teacher (lstar_init word_teacher) (add_prefixes ''ab'' (lstar_init word_teacher))"
    by (rule op_counterexample)
  have al: "get_alphabet word_teacher = ''ab''" by (simp add: word_teacher_def)
  from epsilon_in_S_alphabet_in_E_always [OF r] o r show ?thesis
    unfolding al by simp
qed

text \<open>
  C1, as amended. For every \<open>s\<close> in \<open>S \<union> S\<cdot>A\<close>, the row of \<open>s\<close> is the vector, over \<open>e\<close> in
  E in its order, of the teacher's answers to \<open>s\<cdot>e\<close>, as the teacher gave them: no
  projection to the last \<open>|e|\<close> symbols is taken. When the teacher answers with the whole
  output word, every entry has length \<open>|s| + |e|\<close>.
\<close>

theorem row_is_vector_of_whole_answers:
  fixes tch :: "('a, 'b list) lstar_teacher"
  assumes "lstar_reachable tch st" and "s \<in> set (elems (S st)) \<union> set (SA_val st)"
  shows "value_of (get_row tch st s) = Inr (map (\<lambda>e. member_query tch (s @ e)) (elems (E st))) \<and>
         ((\<forall>w. length (member_query tch w) = length w) \<longrightarrow>
            list_all2 (\<lambda>entry e. length entry = length s + length e)
              (map (\<lambda>e. member_query tch (s @ e)) (elems (E st))) (elems (E st)))"
proof -
  from lstar_inv_reachable [OF assms(1)] have c: "coherent tch st" by (simp add: lstar_inv_def)
  from assms(2) have "s \<in> set (SUSA_val st)" by (simp add: set_SUSA_val)
  from get_row_ok [OF c this]
  have "value_of (get_row tch st s) = Inr (map (\<lambda>e. member_query tch (s @ e)) (elems (E st)))"
    by (auto simp: row_val_def)
  moreover have "list_all2 (\<lambda>entry e. length entry = length s + length e)
              (map (\<lambda>e. member_query tch (s @ e)) (elems (E st))) (elems (E st))"
    if "\<forall>w. length (member_query tch w) = length w"
    using that by (simp add: list_all2_conv_all_nth)
  ultimately show ?thesis by blast
qed

theorem row_is_vector_of_whole_answers_witness:
  "lstar_reachable word_teacher (lstar_init word_teacher) \<and>
   ''a'' \<in> set (elems (S (lstar_init word_teacher))) \<union> set (SA_val (lstar_init word_teacher)) \<and>
   (\<forall>w. length (member_query word_teacher w) = length w) \<and>
   value_of (get_row word_teacher (lstar_init word_teacher) ''a'') = Inr [[0, 0], [0, 0]] \<and>
   list_all2 (\<lambda>entry e. length entry = length ''a'' + length e) [[0, 0], [0, 0 :: nat]] [''a'', ''b'']"
proof -
  have r: "lstar_reachable word_teacher (lstar_init word_teacher)" by (rule reachable_init)
  have m: "''a'' \<in> set (elems (S (lstar_init word_teacher))) \<union> set (SA_val (lstar_init word_teacher))"
    by (simp add: SA_val_def word_init_fields list_union_def)
  have l: "\<forall>w. length (member_query word_teacher w) = length w" by simp
  from row_is_vector_of_whole_answers [OF r m] l r m show ?thesis
    by (simp add: word_init_fields sul_step_def)
qed

theorem row_entry_is_not_projected_counterexample:
  "''a'' \<in> set (SA_val (lstar_init word_teacher)) \<and>
   value_of (get_row word_teacher (lstar_init word_teacher) ''a'') = Inr [[0, 0], [0, 0]] \<and>
   projected_row word_teacher (lstar_init word_teacher) ''a'' = [[0], [0]] \<and>
   elems (E (lstar_init word_teacher)) = [''a'', ''b'']"
proof -
  have c: "coherent word_teacher (lstar_init word_teacher)" by (rule coherent_init)
  have m: "''a'' \<in> set (SA_val (lstar_init word_teacher))"
    by (simp add: SA_val_def word_init_fields list_union_def)
  then have "''a'' \<in> set (SUSA_val (lstar_init word_teacher))" by (simp add: set_SUSA_val)
  from get_row_ok [OF c this] m show ?thesis
    by (auto simp: row_val_def projected_row_def word_init_fields sul_step_def)
qed

text \<open>
  C3, as amended. When the table is not closed, one call of \<^verbatim>\<open>step\<close> adds to S every
  \<open>s\<cdot>a\<close> with \<open>s\<close> in S and \<open>a\<close> in A whose row differs from the row of every member of S,
  not the first one only; the rows are taken over E as the consistency branch of the same
  call left it, which is E itself when the table is consistent.
\<close>

theorem step_adds_every_unmatched_successor:
  assumes "lstar_reachable tch st" and "value_of (is_closed tch st) = Inr False"
  shows "\<exists>st'. step tch st = Inr st' \<and>
           set (elems (S st')) =
             set (elems (S st)) \<union>
             {s @ a | s a. s \<in> set (elems (S st)) \<and> a \<in> set (A st) \<and>
                row_val tch st' (s @ a) \<notin> row_val tch st' ` set (elems (S st))} \<and>
           (value_of (is_consistent tch st) = Inr True \<longrightarrow> E st' = E st)"
proof -
  from lstar_inv_reachable [OF assms(1)] have c: "coherent tch st" by (simp add: lstar_inv_def)
  have nc: "\<not> closed_val tch st" by (rule is_closed_False [OF assms])
  from step_ok [OF c] obtain st' where
    s: "step tch st = Inr st'"
    and E': "E st' = (if consistent_val tch st then E st
                    else case List.find (\<lambda>((s1, s2), (a, e)).
                             member_query tch (s1 @ a @ e) \<noteq> member_query tch (s2 @ a @ e))
                           (List.product (eqrows_val tch st) (List.product (A st) (elems (E st)))) of
                           None \<Rightarrow> E st
                         | Some ((s1, s2), (a, e)) \<Rightarrow> ns_add (a @ e) (E st))"
    and S': "S st' = fold ns_add (new_words tch st' (map (row_val tch st') (elems (S st)))
                                  (List.product (elems (S st)) (A st))) (S st)"
    using nc by auto
  have "set (elems (S st')) =
             set (elems (S st)) \<union>
             {s @ a | s a. s \<in> set (elems (S st)) \<and> a \<in> set (A st) \<and>
                row_val tch st' (s @ a) \<notin> row_val tch st' ` set (elems (S st))}"
    unfolding S' by (auto simp: set_elems_fold_ns_add new_words_def)
  moreover have "E st' = E st" if "value_of (is_consistent tch st) = Inr True"
  proof -
    from is_consistent_ok [OF c] that have "consistent_val tch st" by auto
    with E' show ?thesis by simp
  qed
  ultimately show ?thesis using s by blast
qed

theorem step_adds_every_unmatched_successor_witness:
  "lstar_reachable word_teacher (lstar_init word_teacher) \<and>
   value_of (is_closed word_teacher (lstar_init word_teacher)) = Inr False \<and>
   value_of (is_consistent word_teacher (lstar_init word_teacher)) = Inr True \<and>
   (\<exists>st'. step word_teacher (lstar_init word_teacher) = Inr st' \<and>
      E st' = E (lstar_init word_teacher) \<and>
      set (elems (S st')) = {[], ''a'', ''b''})"
proof -
  let ?I = "lstar_init word_teacher"
  have r: "lstar_reachable word_teacher ?I" by (rule reachable_init)
  have cl: "value_of (is_closed word_teacher ?I) = Inr False"
    using is_closed_ok [OF coherent_init, of word_teacher] by (auto simp: word_init_vals)
  have co: "value_of (is_consistent word_teacher ?I) = Inr True"
    using is_consistent_ok [OF coherent_init, of word_teacher] by (auto simp: word_init_vals)
  from step_adds_every_unmatched_successor [OF r cl] co obtain st' where
    s: "step word_teacher ?I = Inr st'" and E': "E st' = E ?I"
    and S': "set (elems (S st')) =
             set (elems (S ?I)) \<union>
             {s @ a | s a. s \<in> set (elems (S ?I)) \<and> a \<in> set (A ?I) \<and>
                row_val word_teacher st' (s @ a) \<notin> row_val word_teacher st' ` set (elems (S ?I))}"
    by auto
  have rv: "row_val word_teacher st' = row_val word_teacher ?I"
    by (simp add: fun_eq_iff row_val_cong [OF E'])
  have "set (elems (S st')) = {[], ''a'', ''b''}"
    unfolding S' rv by (auto simp: word_init_fields word_init_vals sul_step_def)
  with r cl co s E' show ?thesis by blast
qed

theorem step_adds_two_words_counterexample:
  "value_of (is_closed word_teacher (lstar_init word_teacher)) = Inr False \<and>
   elems (S (lstar_init word_teacher)) = [[]] \<and>
   map_sum id (\<lambda>st'. elems (S st')) (step word_teacher (lstar_init word_teacher))
     = Inr [[], ''a'', ''b'']"
proof -
  let ?I = "lstar_init word_teacher"
  have cl: "value_of (is_closed word_teacher ?I) = Inr False"
    using is_closed_ok [OF coherent_init, of word_teacher] by (auto simp: word_init_vals)
  from word_init_step cl show ?thesis by (auto simp: word_init_fields)
qed

text \<open>
  C6. A row lookup leaves T as it was: \<^verbatim>\<open>query\<close> returns the teacher's answer before the
  statements that would store it. After the lookup of the row of the empty word in a new
  learner, T is still empty.
\<close>

theorem row_lookup_leaves_T_empty:
  "map_sum id (\<lambda>(row, st'). (row, dom (T st'))) (get_row word_teacher (lstar_init word_teacher) [])
     = Inr ([[0], [0]], {})"
proof -
  have "[] \<in> set (SUSA_val (lstar_init word_teacher))"
    by (simp add: set_SUSA_val word_init_fields)
  from get_row_ok [OF coherent_init this] show ?thesis
    by (auto simp: same_table_def word_init_fields word_init_vals sul_step_def)
qed
text \<open>
  C4, as amended. \<^verbatim>\<open>build_dfa\<close> never raises on account of an edge: for each state and input it
  keeps the edge of the first access word of S, in its order, that has the state's row and
  whose successor row is a state; every later attempt for the same state and input is
  ignored, the duplicate and the conflicting one alike.
\<close>

theorem build_dfa_keeps_first_edge:
  assumes "lstar_reachable tch st"
  shows "\<exists>h st'. build_dfa tch st = Inr (h, st') \<and>
           (\<forall>r a. edge_of (states h) r a =
                    (if a \<in> set (get_alphabet tch) then first_edge tch st (elems (S st)) r a
                     else None))"
proof -
  from lstar_inv_reachable [OF assms] have i: "lstar_inv tch st" by simp
  from build_dfa_reachable [OF assms] obtain st' where
    "build_dfa tch st = Inr (hypothesis_val tch st, st')" by blast
  then show ?thesis
    using hypothesis_edges [of tch st] lstar_inv_alphabet(1) [OF i] by auto
qed

theorem build_dfa_keeps_first_edge_witness:
  "lstar_reachable symbol_teacher (lstar_init symbol_teacher) \<and>
   CHR ''a'' \<in> set (get_alphabet symbol_teacher) \<and>
   (\<exists>h st'. build_dfa symbol_teacher (lstar_init symbol_teacher) = Inr (h, st') \<and>
      edge_of (states h) [0] (CHR ''a'') = Some ([0], 0) \<and>
      edge_of (states h) [0] (CHR ''b'') = None)"
proof -
  let ?I = "lstar_init symbol_teacher"
  have r: "lstar_reachable symbol_teacher ?I" by (rule reachable_init)
  from build_dfa_keeps_first_edge [OF r] obtain h st' where
    b: "build_dfa symbol_teacher ?I = Inr (h, st')"
    and e: "\<And>r a. edge_of (states h) r a =
                    (if a \<in> set (get_alphabet symbol_teacher)
                     then first_edge symbol_teacher ?I (elems (S ?I)) r a else None)"
    by blast
  have "edge_of (states h) [0] (CHR ''a'') = Some ([0], 0)"
    unfolding e by (simp add: first_edge_def symbol_init_fields symbol_init_vals sul_step_def)
  moreover have "edge_of (states h) [0] (CHR ''b'') = None"
    unfolding e by simp
  ultimately show ?thesis using r b by auto
qed

theorem conflicting_edge_is_ignored_counterexample:
  "''a'' \<in> set (elems (S (add_prefixes ''aa'' (lstar_init symbol_teacher)))) \<and>
   row_val symbol_teacher (add_prefixes ''aa'' (lstar_init symbol_teacher)) ''a'' = [0] \<and>
   row_val symbol_teacher (add_prefixes ''aa'' (lstar_init symbol_teacher)) ''aa'' = [1] \<and>
   member_query symbol_teacher ''aa'' = 0 \<and>
   map_sum id (\<lambda>(h, st'). (edge_of (states h) [0] (CHR ''a''), states h [1] \<noteq> None))
     (build_dfa symbol_teacher (add_prefixes ''aa'' (lstar_init symbol_teacher)))
     = Inr (Some ([0], 0), True) \<and>
   add_edge \<lparr>name = ''s1'', edges = [CHR ''a'' \<mapsto> ([0], 0)]\<rparr> (CHR ''a'') (0 :: nat) [1 :: nat] False
     = Inl EdgeError"
proof -
  let ?st = "add_prefixes ''aa'' (lstar_init symbol_teacher)"
  have r: "lstar_reachable symbol_teacher ?st"
    by (rule reachable_add_prefixes [OF reachable_init])
  from build_dfa_reachable [OF r] obtain st' where
    b: "build_dfa symbol_teacher ?st = Inr (hypothesis_val symbol_teacher ?st, st')" by blast
  have e: "edge_of (states (hypothesis_val symbol_teacher ?st)) [0] (CHR ''a'') = Some ([0], 0)"
    unfolding hypothesis_edges
    by (simp add: first_edge_def symbol_aa_fields symbol_aa_rows symbol_init_fields sul_step_def)
  have d: "states (hypothesis_val symbol_teacher ?st) [1] \<noteq> None"
    unfolding hypothesis_dom by (simp add: symbol_aa_fields symbol_aa_rows)
  have m: "member_query symbol_teacher ''aa'' = 0" by (simp add: sul_step_def)
  from b e d m show ?thesis
    by (simp add: symbol_aa_fields symbol_aa_rows add_edge_def del: symbol_member_query)
qed

text \<open>
  C5, as amended. For every \<open>s\<close> in S and \<open>a\<close> in A, the transition that \<^verbatim>\<open>build_dfa\<close> adds from
  the state of \<open>row(s)\<close> on \<open>a\<close> carries as its output the teacher's answer to \<open>s\<cdot>a\<close> as the
  teacher gave it: the whole output word when the teacher answers with output words, not
  its last symbol. The transition is there as soon as \<open>row(s\<cdot>a)\<close> is the row of a member of
  S, and on a consistent table it leads to the state of \<open>row(s\<cdot>a)\<close>. Neither closedness nor
  consistency is needed for the output.
\<close>

theorem transition_output_is_whole_answer:
  assumes "lstar_reachable tch st" and "s \<in> set (elems (S st))" and "a \<in> set (get_alphabet tch)"
  shows "\<exists>h st'. build_dfa tch st = Inr (h, st') \<and>
           (\<forall>q out. edge_of (states h) (row_val tch st s) a = Some (q, out) \<longrightarrow>
              out = member_query tch (s @ [a])) \<and>
           (row_val tch st (s @ [a]) \<in> set (map (row_val tch st) (elems (S st))) \<longrightarrow>
              (\<exists>q. edge_of (states h) (row_val tch st s) a = Some (q, member_query tch (s @ [a])))) \<and>
           (row_val tch st (s @ [a]) \<in> set (map (row_val tch st) (elems (S st))) \<and>
            value_of (is_consistent tch st) = Inr True \<longrightarrow>
              edge_of (states h) (row_val tch st s) a =
                Some (row_val tch st (s @ [a]), member_query tch (s @ [a])))"
proof -
  from lstar_inv_reachable [OF assms(1)] have i: "lstar_inv tch st" by simp
  then have c: "coherent tch st" by (simp add: lstar_inv_def)
  from assms(3) i have aA: "[a] \<in> set (A st)" and aE: "[a] \<in> set (elems (E st))"
    by (simp_all add: lstar_inv_alphabet(2) lstar_inv_def)
  let ?rows = "set (map (row_val tch st) (elems (S st)))"
  let ?P = "\<lambda>s'. row_val tch st s' = row_val tch st s \<and> row_val tch st (s' @ [a]) \<in> ?rows"
  let ?h = "hypothesis_val tch st"
  have e: "edge_of (states ?h) (row_val tch st s) a =
      map_option (\<lambda>s'. (row_val tch st (s' @ [a]), member_query tch (s' @ [a])))
        (List.find ?P (elems (S st)))"
  proof -
    have "a \<in> set (concat (A st))" unfolding lstar_inv_alphabet(1) [OF i] by (rule assms(3))
    then show ?thesis unfolding hypothesis_edges first_edge_def by (simp only: if_True)
  qed
  have found: "member_query tch (s' @ [a]) = member_query tch (s @ [a]) \<and>
      s' \<in> set (elems (S st)) \<and> row_val tch st s' = row_val tch st s"
    if "List.find ?P (elems (S st)) = Some s'" for s'
  proof -
    from that have s': "s' \<in> set (elems (S st))" and r: "row_val tch st s' = row_val tch st s"
      by (auto simp: find_Some_iff)
    from same_row_same_answer [OF r aE] s' r show ?thesis by simp
  qed
  have 1: "out = member_query tch (s @ [a])"
    if "edge_of (states ?h) (row_val tch st s) a = Some (q, out)" for q out
  proof -
    from that [unfolded e] obtain s' where f: "List.find ?P (elems (S st)) = Some s'"
      and o: "out = member_query tch (s' @ [a])" by (auto simp only: map_option_eq_Some prod.inject)
    from found [OF f] o show ?thesis by simp
  qed
  have ex: "\<exists>s'. List.find ?P (elems (S st)) = Some s'" if "row_val tch st (s @ [a]) \<in> ?rows"
  proof -
    from that have "?P s" by simp
    with assms(2) have "List.find ?P (elems (S st)) \<noteq> None" by (auto simp: find_None_iff)
    then show ?thesis by blast
  qed
  have 2: "\<exists>q. edge_of (states ?h) (row_val tch st s) a = Some (q, member_query tch (s @ [a]))"
    if "row_val tch st (s @ [a]) \<in> ?rows"
  proof -
    from ex [OF that] obtain s' where f: "List.find ?P (elems (S st)) = Some s'" ..
    with found [OF f] show ?thesis unfolding e by simp
  qed
  have 3: "edge_of (states ?h) (row_val tch st s) a =
      Some (row_val tch st (s @ [a]), member_query tch (s @ [a]))"
    if "row_val tch st (s @ [a]) \<in> ?rows" and "value_of (is_consistent tch st) = Inr True"
  proof -
    from is_consistent_ok [OF c] that(2) have co: "consistent_val tch st" by auto
    from ex [OF that(1)] obtain s' where f: "List.find ?P (elems (S st)) = Some s'" ..
    note g = found [OF f]
    from g have "row_val tch st (s' @ [a]) = row_val tch st (s @ [a])"
      using consistent_rows [OF co _ assms(2) _ aA, of s'] by simp
    with f g show ?thesis unfolding e by simp
  qed
  from build_dfa_reachable [OF assms(1)] obtain st' where
    b: "build_dfa tch st = Inr (?h, st')" by blast
  show ?thesis
  proof (rule exI [of _ ?h], rule exI [of _ st'], intro conjI allI impI)
    show "build_dfa tch st = Inr (?h, st')" by (rule b)
  next
    fix q out assume "edge_of (states ?h) (row_val tch st s) a = Some (q, out)"
    then show "out = member_query tch (s @ [a])" by (rule 1)
  next
    assume "row_val tch st (s @ [a]) \<in> ?rows"
    then show "\<exists>q. edge_of (states ?h) (row_val tch st s) a = Some (q, member_query tch (s @ [a]))"
      by (rule 2)
  next
    assume "row_val tch st (s @ [a]) \<in> ?rows \<and> value_of (is_consistent tch st) = Inr True"
    then show "edge_of (states ?h) (row_val tch st s) a =
        Some (row_val tch st (s @ [a]), member_query tch (s @ [a]))"
      using 3 by simp
  qed
qed

theorem transition_output_is_whole_answer_witness:
  "lstar_reachable word_teacher (add_prefixes ''aa'' (lstar_init word_teacher)) \<and>
   ''a'' \<in> set (elems (S (add_prefixes ''aa'' (lstar_init word_teacher)))) \<and>
   CHR ''a'' \<in> set (get_alphabet word_teacher) \<and>
   row_val word_teacher (add_prefixes ''aa'' (lstar_init word_teacher)) (''a'' @ ''a'')
     \<in> set (map (row_val word_teacher (add_prefixes ''aa'' (lstar_init word_teacher)))
              (elems (S (add_prefixes ''aa'' (lstar_init word_teacher))))) \<and>
   value_of (is_consistent word_teacher (add_prefixes ''aa'' (lstar_init word_teacher))) = Inr True \<and>
   (\<exists>h st'. build_dfa word_teacher (add_prefixes ''aa'' (lstar_init word_teacher)) = Inr (h, st') \<and>
      edge_of (states h) [[0, 0], [0, 0]] (CHR ''a'') = Some ([[0, 0, 1], [0, 0, 0]], [0, 0])) \<and>
   member_query word_teacher ''aa'' = [0, 0]"
proof -
  let ?st = "add_prefixes ''aa'' (lstar_init word_teacher)"
  have r: "lstar_reachable word_teacher ?st"
    by (rule reachable_add_prefixes [OF reachable_init])
  from lstar_inv_reachable [OF r] have c: "coherent word_teacher ?st" by (simp add: lstar_inv_def)
  have s: "''a'' \<in> set (elems (S ?st))" by (simp add: word_aa_fields)
  have a: "CHR ''a'' \<in> set (get_alphabet word_teacher)" by (simp add: word_alphabet)
  have t: "row_val word_teacher ?st (''a'' @ [CHR ''a'']) \<in> set (map (row_val word_teacher ?st) (elems (S ?st)))"
    by (simp add: word_aa_fields word_aa_rows)
  have "consistent_val word_teacher ?st"
    by (simp add: consistent_val_def eqrows_val_def word_aa_fields word_aa_rows)
  with is_consistent_ok [OF c] have co: "value_of (is_consistent word_teacher ?st) = Inr True"
    by (auto simp: value_of_def)
  have m: "member_query word_teacher ''aa'' = [0, 0]" by (simp add: sul_step_def)
  from transition_output_is_whole_answer [OF r s a] t co
  obtain h st' where b: "build_dfa word_teacher ?st = Inr (h, st')"
    and e: "edge_of (states h) (row_val word_teacher ?st ''a'') (CHR ''a'') =
      Some (row_val word_teacher ?st (''a'' @ [CHR ''a'']), member_query word_teacher (''a'' @ [CHR ''a'']))"
    by blast
  from e have "edge_of (states h) [[0, 0], [0, 0]] (CHR ''a'') = Some ([[0, 0, 1], [0, 0, 0]], [0, 0])"
    by (simp add: word_aa_rows sul_step_def)
  with r s a t co b m show ?thesis by (auto simp del: word_member_query)
qed

theorem transition_output_is_not_last_symbol_counterexample:
  "''a'' \<in> set (elems (S (add_prefixes ''aa'' (lstar_init word_teacher)))) \<and>
   map_sum id (\<lambda>(h, st'). edge_of (states h)
        (row_val word_teacher (add_prefixes ''aa'' (lstar_init word_teacher)) ''a'') (CHR ''a''))
     (build_dfa word_teacher (add_prefixes ''aa'' (lstar_init word_teacher)))
     = Inr (Some (row_val word_teacher (add_prefixes ''aa'' (lstar_init word_teacher)) ''aa'', [0, 0])) \<and>
   member_query word_teacher ''aa'' = [0, 0] \<and>
   last (member_query word_teacher ''aa'') = 0"
proof -
  let ?st = "add_prefixes ''aa'' (lstar_init word_teacher)"
  have r: "lstar_reachable word_teacher ?st"
    by (rule reachable_add_prefixes [OF reachable_init])
  from build_dfa_reachable [OF r] obtain st' where
    b: "build_dfa word_teacher ?st = Inr (hypothesis_val word_teacher ?st, st')" by blast
  have m: "member_query word_teacher ''aa'' = [0, 0]" by (simp add: sul_step_def)
  have e: "edge_of (states (hypothesis_val word_teacher ?st)) (row_val word_teacher ?st ''a'') (CHR ''a'')
      = Some (row_val word_teacher ?st ''aa'', [0, 0])"
    unfolding hypothesis_edges
    by (simp add: first_edge_def word_aa_fields word_aa_rows word_init_fields sul_step_def)
  from b e m show ?thesis
    by (simp add: word_aa_fields del: word_member_query)
qed

text \<open>
  C7. When \<^verbatim>\<open>run\<close> receives a counterexample \<open>w\<close> from a failed equivalence query, it adds
  every prefix of \<open>w\<close> of length 1 to \<open>|w|\<close> to S and goes on with the next round from that
  learner; and a hypothesis that \<^verbatim>\<open>run\<close> returns is one the equivalence query accepted.
\<close>

theorem run_integrates_counterexample_and_returns_accepted:
  "(run n tch st = Some (Inr (h, st')) \<longrightarrow> fst (equivalence_query tch h)) \<and>
   (refine (Suc n) tch st = Some (Inr st1) \<and> build_dfa tch st1 = Inr (h1, st2) \<and>
    equivalence_query tch h1 = (False, w) \<longrightarrow>
      run (Suc n) tch st = run n tch (add_prefixes w st2) \<and>
      set (elems (S (add_prefixes w st2))) =
        set (elems (S st2)) \<union> {take i w | i. 1 \<le> i \<and> i \<le> length w})"
proof (intro conjI impI)
  show "fst (equivalence_query tch h)" if "run n tch st = Some (Inr (h, st'))"
    using that
  proof (induction n arbitrary: st)
    case 0
    then show ?case by (simp add: run.simps)
  next
    case (Suc n)
    from Suc.prems obtain sta where r: "refine (Suc n) tch st = Some (Inr sta)"
      by (auto simp: run.simps split: option.splits sum.splits)
    with Suc.prems obtain hb stb where b: "build_dfa tch sta = Inr (hb, stb)"
      by (auto simp: run.simps split: option.splits sum.splits)
    obtain ok ce where e: "equivalence_query tch hb = (ok, ce)" by (cases "equivalence_query tch hb")
    show ?case
    proof (cases ok)
      case True
      with Suc.prems r b e show ?thesis by (auto simp: run.simps)
    next
      case False
      with Suc.prems r b e have "run n tch (add_prefixes ce stb) = Some (Inr (h, st'))"
        by (simp add: run.simps)
      then show ?thesis by (rule Suc.IH)
    qed
  qed
next
  assume a: "refine (Suc n) tch st = Some (Inr st1) \<and> build_dfa tch st1 = Inr (h1, st2) \<and>
    equivalence_query tch h1 = (False, w)"
  then show "run (Suc n) tch st = run n tch (add_prefixes w st2)" by (simp add: run.simps)
  show "set (elems (S (add_prefixes w st2))) =
        set (elems (S st2)) \<union> {take i w | i. 1 \<le> i \<and> i \<le> length w}"
    using prefix_set [of w]
    by (simp only: add_prefixes_S set_elems_fold_ns_add Un_commute)
qed

theorem run_integrates_counterexample_and_returns_accepted_witness:
  "(\<exists>h st'. run 3 symbol_teacher (lstar_init symbol_teacher) = Some (Inr (h, st')) \<and>
      fst (equivalence_query symbol_teacher h)) \<and>
   (\<exists>st1 h1 st2.
      refine 3 symbol_teacher (lstar_init symbol_teacher) = Some (Inr st1) \<and>
      build_dfa symbol_teacher st1 = Inr (h1, st2) \<and>
      equivalence_query symbol_teacher h1 = (False, ''aaa'') \<and>
      run 3 symbol_teacher (lstar_init symbol_teacher)
        = run 2 symbol_teacher (add_prefixes ''aaa'' st2) \<and>
      set (elems (S (add_prefixes ''aaa'' st2))) = {[], ''a'', ''aa'', ''aaa''})"
proof -
  let ?L = symbol_teacher
  let ?I = "lstar_init symbol_teacher"
  \<comment> \<open>round 1: the initial table is closed and consistent\<close>
  have n3: "(3::nat) = Suc 2" and n2: "(2::nat) = Suc 1" and n1: "(1::nat) = Suc 0" by simp_all
  from refine_ready [OF coherent_init symbol_init_vals(1,2), of 2] obtain st1 where
    r1: "refine (Suc 2) ?L ?I = Some (Inr st1)" and t1: "same_table st1 ?I" and c1: "coherent ?L st1"
    by blast
  have f1: "S st1 = S ?I" "E st1 = E ?I" "A st1 = A ?I" using t1 by (simp_all add: same_table_def)
  have e1: "[] \<in> set (elems (S st1))" and a1: "\<forall>w \<in> set (A st1). length w = 1"
    by (simp_all add: f1 symbol_init_fields)
  from build_dfa_ok [OF c1 e1 a1] obtain st2 where
    b1: "build_dfa ?L st1 = Inr (hypothesis_val ?L st1, st2)" and t2: "same_table st2 st1"
    and c2: "coherent ?L st2" by blast
  have f2: "S st2 = S ?I" "E st2 = E ?I" "A st2 = A ?I" using t2 f1 by (simp_all add: same_table_def)
  have q1: "equivalence_query ?L (hypothesis_val ?L st1) = (False, ''aaa'')"
    by (simp only: hypothesis_val_cong [OF t1] symbol_round1_query)
  note thm1 = run_integrates_counterexample_and_returns_accepted
    [of 2 ?L ?I _ _ st1 "hypothesis_val ?L st1" st2 "''aaa''", THEN conjunct2, THEN mp,
     OF conjI [OF r1 conjI [OF b1 q1]]]
  from thm1 have
    run3: "run (Suc 2) ?L ?I = run 2 ?L (add_prefixes ''aaa'' st2)"
    and S3: "set (elems (S (add_prefixes ''aaa'' st2))) =
        set (elems (S st2)) \<union> {take i ''aaa'' | i. 1 \<le> i \<and> i \<le> length ''aaa''}"
    by (rule conjunct1, rule conjunct2)
  \<comment> \<open>round 2: the prefixes make the table inconsistent; one step adds aa to E\<close>
  define st3 where "st3 = add_prefixes ''aaa'' st2"
  have c3: "coherent ?L st3"
    unfolding st3_def add_prefixes_eq by (rule coherent_fold_add_S [OF c2])
  have f3: "elems (S st3) = [[], ''a'', ''aa'', ''aaa'']" "elems (E st3) = [''a'']" "A st3 = [''a'']"
    by (simp_all add: st3_def add_prefixes_S prefixes_of_aaa f2 symbol_init_fields ns_add_def)
  have n23: "\<not> (closed_val ?L st3 \<and> consistent_val ?L st3)"
    using symbol_round2_vals(2) [OF f3] by simp
  from refine_unready [OF c3 n23, of 1] obtain st3' st4 where
    t3': "same_table st3' st3" and c3': "coherent ?L st3'" and s3: "step ?L st3' = Inr st4"
    and r2: "refine (Suc 1) ?L st3 = refine 1 ?L st4"
    by blast
  have f3': "elems (S st3') = [[], ''a'', ''aa'', ''aaa'']" "elems (E st3') = [''a'']" "A st3' = [''a'']"
    using t3' f3 by (simp_all add: same_table_def)
  from step_ok [OF c3'] s3 have c4: "coherent ?L st4" and A4: "A st4 = A st3'"
    and E4: "E st4 = ns_add ''aa'' (E st3')" and S4: "S st4 = S st3'"
    by (simp_all add: symbol_round2_vals [OF f3'] del: symbol_member_query)
  have f4: "elems (S st4) = [[], ''a'', ''aa'', ''aaa'']" "elems (E st4) = [''a'', ''aa'']" "A st4 = [''a'']"
    by (simp_all add: S4 E4 A4 f3' ns_add_def)
  from refine_ready [OF c4 symbol_round3_vals(1,2) [OF f4], of 0] obtain st5 where
    r3: "refine (Suc 0) ?L st4 = Some (Inr st5)" and t5: "same_table st5 st4" and c5: "coherent ?L st5"
    by blast
  have f5: "elems (S st5) = [[], ''a'', ''aa'', ''aaa'']" "elems (E st5) = [''a'', ''aa'']" "A st5 = [''a'']"
    using t5 f4 by (simp_all add: same_table_def)
  have e5: "[] \<in> set (elems (S st5))" and a5: "\<forall>w \<in> set (A st5). length w = 1"
    by (simp_all add: f5)
  from build_dfa_ok [OF c5 e5 a5] obtain st6 where
    b2: "build_dfa ?L st5 = Inr (hypothesis_val ?L st5, st6)" by blast
  have q2: "equivalence_query ?L (hypothesis_val ?L st5) = (True, [])"
    by (rule symbol_round3_query [OF f5])
  have "refine (Suc 1) ?L st3 = Some (Inr st5)"
    using r2 r3 by simp
  then have "run (Suc 1) ?L st3 = Some (Inr (hypothesis_val ?L st5, st6))"
    using b2 q2 by (simp add: run.simps)
  with run3 have run: "run 3 ?L ?I = Some (Inr (hypothesis_val ?L st5, st6))"
    by (simp add: st3_def numeral_3_eq_3 numeral_2_eq_2)
  note thm2 = run_integrates_counterexample_and_returns_accepted
    [of 3 ?L ?I "hypothesis_val ?L st5" st6, THEN conjunct1, THEN mp, OF run]
  from thm2 have acc: "fst (equivalence_query ?L (hypothesis_val ?L st5))" .
  have "{take i ''aaa'' | i. 1 \<le> i \<and> i \<le> length ''aaa''} = {''a'', ''aa'', ''aaa''}"
    unfolding prefix_set [symmetric] prefixes_of_aaa by simp
  with S3 have S3': "set (elems (S (add_prefixes ''aaa'' st2))) = {[], ''a'', ''aa'', ''aaa''}"
    by (simp add: f2 symbol_init_fields)
  have r1': "refine 3 ?L ?I = Some (Inr st1)" using r1 by (simp add: numeral_3_eq_3 numeral_2_eq_2)
  have run3': "run 3 ?L ?I = run 2 ?L (add_prefixes ''aaa'' st2)"
    using run3 by (simp add: numeral_3_eq_3 numeral_2_eq_2)
  have first: "\<exists>h st'. run 3 ?L ?I = Some (Inr (h, st')) \<and> fst (equivalence_query ?L h)"
    using run acc by (intro exI conjI)
  have second: "\<exists>st1 h1 st2.
      refine 3 ?L ?I = Some (Inr st1) \<and>
      build_dfa ?L st1 = Inr (h1, st2) \<and>
      equivalence_query ?L h1 = (False, ''aaa'') \<and>
      run 3 ?L ?I = run 2 ?L (add_prefixes ''aaa'' st2) \<and>
      set (elems (S (add_prefixes ''aaa'' st2))) = {[], ''a'', ''aa'', ''aaa''}"
    using r1' b1 q1 run3' S3' by (intro exI conjI)
  from first second show ?thesis by (rule conjI)
qed

section \<open>TTT: lemmas\<close>

subsection \<open>The discrimination tree\<close>


lemma walk_not_Fell_Nil: "walk q w node \<noteq> Fell []"
  by (cases node) (auto simp: Let_def split: walk_result.splits)

lemma walk_children_map_of:
  "walk_children q w cs r = (case map_of cs r of None \<Rightarrow> Fell [] | Some c \<Rightarrow> walk q w c)"
  by (induction cs) auto

lemma walk_Inner:
  "walk q w (Inner v t cs) =
     (case map_of cs (q (w @ v)) of
        None \<Rightarrow> Fell [q (w @ v)]
      | Some c \<Rightarrow> (case walk q w c of Reached s \<Rightarrow> Reached s | Fell p \<Rightarrow> Fell (q (w @ v) # p)))"
  by (simp add: walk_children_map_of Let_def split: option.splits)

lemma attach_children_dict_set:
  "map_of cs r = Some c \<Longrightarrow> attach_children r p new cs = dict_set cs r (attach p new c)"
  by (induction cs) auto

lemma dict_set_same: "map_of cs r = Some c \<Longrightarrow> dict_set cs r c = cs"
  by (induction cs) auto

lemma dict_set_fresh: "map_of cs r = None \<Longrightarrow> dict_set cs r c = cs @ [(r, c)]"
  by (induction cs) (auto split: if_splits)

lemma dict_set_new_key: "k \<notin> set (map fst kvs) \<Longrightarrow> dict_set kvs k v = kvs @ [(k, v)]"
  by (induction kvs) auto

lemma attach_Inner_missing:
  "map_of cs r = None \<Longrightarrow> attach [r] new (Inner v t cs) = Inner v t (cs @ [(r, new)])"
  by (simp add: dict_set_fresh)

lemma attach_Inner_descend:
  "map_of cs r = Some c \<Longrightarrow> p \<noteq> [] \<Longrightarrow>
   attach (r # p) new (Inner v t cs) = Inner v t (dict_set cs r (attach p new c))"
  by (cases p) (simp_all add: attach_children_dict_set)

lemma leaves_children_append [simp]:
  "leaves_children (cs @ ds) = leaves_children cs @ leaves_children ds"
  by (induction cs) auto

lemma leaves_dict_set_set:
  "map_of cs r = Some c \<Longrightarrow> set (leaves c) \<subseteq> set (leaves c') \<Longrightarrow>
   set (leaves_children (dict_set cs r c')) = set (leaves_children cs) \<union> set (leaves c')"
  by (induction cs) (auto split: if_splits)

lemma leaves_dict_set_length:
  "map_of cs r = Some c \<Longrightarrow>
   length (leaves_children (dict_set cs r c')) + length (leaves c) =
   length (leaves_children cs) + length (leaves c')"
  by (induction cs) (auto split: if_splits)

lemma leaves_child_subset:
  "map_of cs r = Some c \<Longrightarrow> set (leaves c) \<subseteq> set (leaves_children cs)"
  by (induction cs) (auto split: if_splits)

lemma attach_leaves:
  "walk q w node = Fell p \<Longrightarrow>
   set (leaves (attach p new node)) = set (leaves node) \<union> set (leaves new) \<and>
   length (leaves (attach p new node)) = length (leaves node) + length (leaves new)"
proof (induction node arbitrary: p)
  case (Leaf s)
  then show ?case by simp
next
  case (Inner v t cs)
  show ?case
  proof (cases "map_of cs (q (w @ v))")
    case None
    with Inner.prems have "p = [q (w @ v)]" by (simp add: walk_Inner del: walk.simps)
    with None show ?thesis by (simp add: attach_Inner_missing del: attach.simps)
  next
    case (Some c)
    with Inner.prems obtain p0 where w0: "walk q w c = Fell p0" and p: "p = q (w @ v) # p0"
      by (auto simp: walk_Inner simp del: walk.simps split: walk_result.splits)
    from w0 have ne: "p0 \<noteq> []" using walk_not_Fell_Nil [of q w c] by auto
    from Some have "(q (w @ v), c) \<in> set cs" by (rule map_of_SomeD)
    then have ih: "set (leaves (attach p0 new c)) = set (leaves c) \<union> set (leaves new) \<and>
      length (leaves (attach p0 new c)) = length (leaves c) + length (leaves new)"
      using Inner.IH [OF _ _ w0] by force
    from leaves_dict_set_set [OF Some, of "attach p0 new c"] leaves_dict_set_length [OF Some, of "attach p0 new c"] ih
      leaves_child_subset [OF Some]
    show ?thesis unfolding p attach_Inner_descend [OF Some ne] by auto
  qed
qed

lemma replace_leaf_absent:
  "s \<notin> set (leaves node) \<Longrightarrow> replace_leaf s new node = node"
  "s \<notin> set (leaves_children cs) \<Longrightarrow> replace_leaf_children s new cs = cs"
  by (induction s new node and s new cs rule: replace_leaf_replace_leaf_children.induct) auto

lemma replace_leaf_leaves:
  "distinct (leaves node) \<Longrightarrow> s \<in> set (leaves node) \<Longrightarrow>
   set (leaves (replace_leaf s new node)) = set (leaves node) - {s} \<union> set (leaves new) \<and>
   length (leaves (replace_leaf s new node)) + 1 = length (leaves node) + length (leaves new)"
  "distinct (leaves_children cs) \<Longrightarrow> s \<in> set (leaves_children cs) \<Longrightarrow>
   set (leaves_children (replace_leaf_children s new cs)) =
     set (leaves_children cs) - {s} \<union> set (leaves new) \<and>
   length (leaves_children (replace_leaf_children s new cs)) + 1 =
     length (leaves_children cs) + length (leaves new)"
proof (induction s new node and s new cs rule: replace_leaf_replace_leaf_children.induct)
  case (1 s new s')
  then show ?case by simp
next
  case (2 s new v temporary cs)
  then show ?case by simp
next
  case (3 s new)
  then show ?case by simp
next
  case (4 s new k c cs)
  show ?case
  proof (cases "s \<in> set (leaves c)")
    case True
    with 4(3) have "s \<notin> set (leaves_children cs)" by auto
    then have "replace_leaf_children s new cs = cs" by (rule replace_leaf_absent)
    moreover from 4(3) have "distinct (leaves c)" by simp
    note 4(1) [OF this True]
    ultimately show ?thesis using True 4(3) by auto
  next
    case False
    then have "replace_leaf s new c = c" by (rule replace_leaf_absent)
    moreover from False 4(4) have m: "s \<in> set (leaves_children cs)" by simp
    moreover from 4(3) have "distinct (leaves_children cs)" by simp
    note 4(2) [OF this m]
    ultimately show ?thesis using False 4(3) by auto
  qed
qed

lemma distinct_one_more:
  assumes "distinct xs" and "q \<notin> set xs" and "set ys = insert q (set xs)"
    and "length ys = Suc (length xs)"
  shows "distinct ys"
proof -
  from assms(1) have "card (set xs) = length xs" by (rule distinct_card)
  with assms(2,3,4) have "card (set ys) = length ys" by simp
  then show ?thesis by (rule card_distinct)
qed


subsection \<open>\<^verbatim>\<open>sift\<close> and \<^verbatim>\<open>construct_hypothesis\<close>\<close>


lemma keys_S_upd [simp]:
  "keys_S (st\<lparr>objects := ob\<rparr>) = keys_S st"
  "keys_S (st\<lparr>next_object := n\<rparr>) = keys_S st"
  "keys_S (st\<lparr>DTree := d\<rparr>) = keys_S st"
  "keys_S (st\<lparr>S_ttt := kvs\<rparr>) = set (map fst kvs)"
  by (simp_all add: keys_S_def)

lemma ttt_inv_objects [simp]: "ttt_inv (st\<lparr>objects := ob\<rparr>) = ttt_inv st"
  by (simp add: ttt_inv_def leaf_bijection_def split: option.splits)

lemma ttt_inv_init: "ttt_inv (ttt_init tch)"
  by (simp add: ttt_inv_def leaf_bijection_def ttt_init_def)

lemma sift_Inr:
  assumes "sift tch st w = Inr (q, st')"
  shows "st' = st \<or>
         (\<exists>root p. DTree st = Some root \<and> walk (ttt_query tch) w root = Fell p \<and>
            w \<notin> keys_S st \<and> q = next_object st \<and> S_ttt st' = S_ttt st @ [(w, q)] \<and>
            DTree st' = Some (attach p (Leaf q) root) \<and> A_ttt st' = A_ttt st \<and>
            next_object st' = Suc (next_object st))"
proof (cases "DTree st")
  case None
  with assms show ?thesis by (simp add: sift_def)
next
  case (Some root)
  show ?thesis
  proof (cases "walk (ttt_query tch) w root")
    case (Reached s)
    with Some assms show ?thesis by (simp add: sift_def)
  next
    case (Fell p)
    with Some assms show ?thesis
      by (auto simp: sift_def new_State_def keys_S_def dict_set_new_key Let_def
          simp del: walk.simps attach.simps split: if_splits)
  qed
qed

lemma sift_frame:
  assumes "sift tch st w = Inr (q, st')"
  shows "A_ttt st' = A_ttt st \<and> keys_S st \<subseteq> keys_S st' \<and> keys_S st' \<subseteq> insert w (keys_S st)"
  using sift_Inr [OF assms] by (auto simp: keys_S_def)

lemma sift_inv:
  assumes "sift tch st w = Inr (q, st')" and i: "ttt_inv st"
  shows "ttt_inv st' \<and> (st' = st \<or> discovers st q st')"
proof -
  from sift_Inr [OF assms(1)] show ?thesis
  proof
    assume "st' = st"
    with i show ?thesis by simp
  next
    assume "\<exists>root p. DTree st = Some root \<and> walk (ttt_query tch) w root = Fell p \<and>
            w \<notin> keys_S st \<and> q = next_object st \<and> S_ttt st' = S_ttt st @ [(w, q)] \<and>
            DTree st' = Some (attach p (Leaf q) root) \<and> A_ttt st' = A_ttt st \<and>
            next_object st' = Suc (next_object st)"
    then obtain root p where r: "DTree st = Some root"
      and f: "walk (ttt_query tch) w root = Fell p" and w: "w \<notin> keys_S st"
      and q: "q = next_object st" and S': "S_ttt st' = S_ttt st @ [(w, q)]"
      and D': "DTree st' = Some (attach p (Leaf q) root)"
      and n': "next_object st' = Suc (next_object st)" by blast
    from i r have d: "distinct (leaves root)" and l: "set (leaves root) = set (map snd (S_ttt st))"
      and b: "list_all (\<lambda>x. x < next_object st) (map snd (S_ttt st))"
      and k: "distinct (map fst (S_ttt st))"
      by (simp_all add: ttt_inv_def leaf_bijection_def)
    from b q have fresh: "q \<notin> set (map snd (S_ttt st))" by (auto simp: list_all_iff)
    from attach_leaves [OF f, of "Leaf q"]
    have s': "set (leaves (attach p (Leaf q) root)) = insert q (set (leaves root))"
      and l': "length (leaves (attach p (Leaf q) root)) = Suc (length (leaves root))" by auto
    from fresh l have "q \<notin> set (leaves root)" by simp
    from distinct_one_more [OF d this s' l'] have d': "distinct (leaves (attach p (Leaf q) root))" .
    have "leaf_bijection st'" using d' s' l by (simp add: leaf_bijection_def D' S')
    moreover have "list_all (\<lambda>x. x < next_object st') (map snd (S_ttt st'))"
      using b q by (auto simp: S' n' list_all_iff)
    moreover have "distinct (map fst (S_ttt st'))" using k w by (simp add: S' keys_S_def)
    moreover have "discovers st q st'" using fresh s' l' by (simp add: discovers_def r D' S')
    ultimately show ?thesis by (simp add: ttt_inv_def)
  qed
qed

lemma object_add_edge_Inr:
  "\<exists>ob. object_add_edge st q a out q' = Inr (st\<lparr>objects := ob\<rparr>)"
  unfolding object_add_edge_def add_edge_def by simp (rule exI, rule refl)

text \<open>What a pass over the transitions keeps and what it may add.\<close>

lemma transitions_A_ok:
  assumes "transitions_A tch k cur as st = Inr st'"
  shows "(ttt_inv st \<longrightarrow> ttt_inv st') \<and> A_ttt st' = A_ttt st \<and> keys_S st \<subseteq> keys_S st' \<and>
         keys_S st' \<subseteq> keys_S st \<union> (\<lambda>a. k @ a) ` set as"
  using assms
proof (induction as arbitrary: st)
  case Nil
  then show ?case by simp
next
  case (Cons a as)
  from Cons.prems obtain q st1 where s: "sift tch st (k @ a) = Inr (q, st1)"
    by (cases "sift tch st (k @ a)") (auto simp: ebind_def)
  from Cons.prems s obtain x rest where a: "a = x # rest"
    by (cases a) (auto simp: ebind_def)
  obtain ob where o: "object_add_edge st1 cur x (ttt_query tch (k @ a)) q = Inr (st1\<lparr>objects := ob\<rparr>)"
    using object_add_edge_Inr [of st1 cur x "ttt_query tch (k @ a)" q] ..
  from Cons.prems s o have t: "transitions_A tch k cur as (st1\<lparr>objects := ob\<rparr>) = Inr st'"
    by (simp add: ebind_def a)
  from Cons.IH [OF t] sift_frame [OF s] sift_inv [OF s]
  show ?case by auto
qed

lemma transitions_S_ok:
  assumes "transitions_S tch items st = Inr st'"
  shows "(ttt_inv st \<longrightarrow> ttt_inv st') \<and> A_ttt st' = A_ttt st \<and> keys_S st \<subseteq> keys_S st' \<and>
         keys_S st' \<subseteq> keys_S st \<union> {k @ a | k a. k \<in> set (map fst items) \<and> a \<in> set (A_ttt st)}"
  using assms
proof (induction items arbitrary: st)
  case Nil
  then show ?case by simp
next
  case (Cons item items)
  obtain k cur where item: "item = (k, cur)" by (cases item)
  from Cons.prems obtain st1 where a: "transitions_A tch k cur (A_ttt st) st = Inr st1"
    and t: "transitions_S tch items st1 = Inr st'"
    by (cases "transitions_A tch k cur (A_ttt st) st") (auto simp: ebind_def item)
  from Cons.IH [OF t] transitions_A_ok [OF a]
  have i: "ttt_inv st \<longrightarrow> ttt_inv st'" and A: "A_ttt st' = A_ttt st" "A_ttt st1 = A_ttt st"
    and m: "keys_S st \<subseteq> keys_S st'"
    and n1: "keys_S st1 \<subseteq> keys_S st \<union> (\<lambda>a. k @ a) ` set (A_ttt st)"
    and n2: "keys_S st' \<subseteq> keys_S st1 \<union> {k @ a | k a. k \<in> set (map fst items) \<and> a \<in> set (A_ttt st1)}"
    by auto
  have "keys_S st' \<subseteq> keys_S st \<union> {k' @ a | k' a. k' \<in> set (map fst (item # items)) \<and> a \<in> set (A_ttt st)}"
  proof
    fix x assume "x \<in> keys_S st'"
    with n2 have "x \<in> keys_S st1 \<or> (\<exists>k' a. x = k' @ a \<and> k' \<in> set (map fst items) \<and> a \<in> set (A_ttt st))"
      unfolding A by blast
    with n1 have "x \<in> keys_S st \<or> (\<exists>a. x = k @ a \<and> a \<in> set (A_ttt st)) \<or>
        (\<exists>k' a. x = k' @ a \<and> k' \<in> set (map fst items) \<and> a \<in> set (A_ttt st))"
      by blast
    then show "x \<in> keys_S st \<union> {k' @ a | k' a. k' \<in> set (map fst (item # items)) \<and> a \<in> set (A_ttt st)}"
      unfolding item by auto
  qed
  with i A m show ?case by simp
qed

lemma prefix_closed_grow:
  assumes p: "prefix_closed ks" and sub: "ks \<subseteq> ks'"
    and new: "ks' \<subseteq> ks \<union> {k @ a | k a. k \<in> ks \<and> a \<in> as}" and one: "\<forall>a \<in> as. length a = 1"
  shows "prefix_closed ks'"
  unfolding prefix_closed_def
proof (intro conjI ballI impI)
  from p sub show "[] \<in> ks'" by (auto simp: prefix_closed_def)
next
  fix k assume k: "k \<in> ks'" and ne: "k \<noteq> []"
  show "butlast k \<in> ks'"
  proof (cases "k \<in> ks")
    case True
    with p ne sub show ?thesis by (auto simp: prefix_closed_def)
  next
    case False
    with k new obtain k0 a where "k = k0 @ a" "k0 \<in> ks" "a \<in> as" by blast
    moreover with one have "length a = 1" by blast
    then obtain x where "a = [x]" by (cases a) auto
    ultimately show ?thesis using sub by auto
  qed
qed

lemma add_transitions_ok:
  assumes "add_transitions fuel tch n st = Some (Inr st')"
  shows "(ttt_inv st \<longrightarrow> ttt_inv st') \<and> A_ttt st' = A_ttt st \<and> keys_S st \<subseteq> keys_S st' \<and>
         (prefix_closed (keys_S st) \<and> (\<forall>a \<in> set (A_ttt st). length a = 1) \<longrightarrow>
            prefix_closed (keys_S st'))"
  using assms
proof (induction fuel arbitrary: n st)
  case 0
  then show ?case by simp
next
  case (Suc fuel)
  from Suc.prems obtain st1 where t: "transitions_S tch (S_ttt st) st = Inr st1"
    by (cases "transitions_S tch (S_ttt st) st") auto
  note ok = transitions_S_ok [OF t]
  have pc: "prefix_closed (keys_S st1)"
    if "prefix_closed (keys_S st)" and "\<forall>a \<in> set (A_ttt st). length a = 1"
    using prefix_closed_grow [OF that(1), of "keys_S st1" "set (A_ttt st)"] ok that(2)
    by (simp add: keys_S_def)
  show ?case
  proof (cases "n \<noteq> length (S_ttt st1)")
    case True
    with Suc.prems t have "add_transitions fuel tch (length (S_ttt st1)) st1 = Some (Inr st')"
      by (simp add: Let_def)
    from Suc.IH [OF this] ok pc show ?thesis by auto
  next
    case False
    with Suc.prems t have "st' = st1" by (simp add: Let_def)
    with ok pc show ?thesis by auto
  qed
qed

lemma dict_get_key: "k \<in> set (map fst kvs) \<Longrightarrow> \<exists>v. dict_get kvs k = Inr v"
  by (cases "map_of kvs k") (auto simp: dict_get_def map_of_eq_None_iff)

lemma spanning_tree_ok:
  assumes "\<forall>k \<in> set (map fst items). k \<noteq> [] \<longrightarrow> butlast k \<in> keys_S st"
  shows "\<exists>st'. spanning_tree tch items st = Inr st' \<and> S_ttt st' = S_ttt st \<and>
           DTree st' = DTree st \<and> A_ttt st' = A_ttt st \<and> next_object st' = next_object st"
  using assms
proof (induction items arbitrary: st)
  case Nil
  then show ?case by simp
next
  case (Cons item items)
  obtain k q where item: "item = (k, q)" by (cases item)
  show ?case
  proof (cases "k = []")
    case True
    with Cons show ?thesis by (simp add: item)
  next
    case False
    with Cons.prems have "butlast k \<in> set (map fst (S_ttt st))" by (simp add: item keys_S_def)
    from dict_get_key [OF this] obtain anc where g: "dict_get (S_ttt st) (butlast k) = Inr anc" ..
    obtain ob where o: "object_add_edge st anc (last k) (ttt_query tch (butlast k @ [last k])) q
        = Inr (st\<lparr>objects := ob\<rparr>)"
      using object_add_edge_Inr [of st anc "last k" "ttt_query tch (butlast k @ [last k])" q] ..
    from Cons.prems have "\<forall>k \<in> set (map fst items). k \<noteq> [] \<longrightarrow> butlast k \<in> keys_S (st\<lparr>objects := ob\<rparr>)"
      by simp
    from Cons.IH [OF this] obtain st' where
      "spanning_tree tch items (st\<lparr>objects := ob\<rparr>) = Inr st'" "S_ttt st' = S_ttt st"
      "DTree st' = DTree st" "A_ttt st' = A_ttt st" "next_object st' = next_object st" by auto
    with False g o show ?thesis by (simp add: item ebind_def Let_def)
  qed
qed

lemma ttt_inv_fields:
  "S_ttt st' = S_ttt st \<Longrightarrow> DTree st' = DTree st \<Longrightarrow> next_object st' = next_object st \<Longrightarrow>
   ttt_inv st' = ttt_inv st"
  by (simp add: ttt_inv_def leaf_bijection_def split: option.splits)

lemma sift_error: "sift tch st w = Inl e \<Longrightarrow> e = AssertionError"
  by (auto simp: sift_def new_State_def Let_def simp del: walk.simps attach.simps
      split: option.splits walk_result.splits if_splits)

lemma transitions_A_error: "transitions_A tch k cur as st = Inl e \<Longrightarrow> e \<noteq> KeyError"
proof (induction as arbitrary: st)
  case Nil
  then show ?case by simp
next
  case (Cons a as)
  show ?case
  proof (cases "sift tch st (k @ a)")
    case (Inl e')
    with Cons.prems sift_error [OF Inl] show ?thesis by (simp add: ebind_def)
  next
    case (Inr r)
    obtain q st1 where r: "r = (q, st1)" by (cases r)
    show ?thesis
    proof (cases a)
      case Nil
      with Cons.prems Inr r show ?thesis by (simp add: ebind_def)
    next
      case (Cons x rest)
      obtain ob where o: "object_add_edge st1 cur x (ttt_query tch (k @ a)) q = Inr (st1\<lparr>objects := ob\<rparr>)"
        using object_add_edge_Inr [of st1 cur x "ttt_query tch (k @ a)" q] ..
      with Cons.prems Inr r Cons have "transitions_A tch k cur as (st1\<lparr>objects := ob\<rparr>) = Inl e"
        by (simp add: ebind_def)
      then show ?thesis by (rule Cons.IH)
    qed
  qed
qed

lemma transitions_S_error: "transitions_S tch items st = Inl e \<Longrightarrow> e \<noteq> KeyError"
proof (induction items arbitrary: st)
  case Nil
  then show ?case by simp
next
  case (Cons item items)
  obtain k cur where item: "item = (k, cur)" by (cases item)
  show ?case
  proof (cases "transitions_A tch k cur (A_ttt st) st")
    case (Inl e')
    with Cons.prems transitions_A_error [OF Inl] show ?thesis by (simp add: ebind_def item)
  next
    case (Inr st1)
    with Cons.prems have "transitions_S tch items st1 = Inl e" by (simp add: ebind_def item)
    then show ?thesis by (rule Cons.IH)
  qed
qed

lemma add_transitions_error: "add_transitions fuel tch n st = Some (Inl e) \<Longrightarrow> e \<noteq> KeyError"
proof (induction fuel arbitrary: n st)
  case 0
  then show ?case by simp
next
  case (Suc fuel)
  show ?case
  proof (cases "transitions_S tch (S_ttt st) st")
    case (Inl e')
    with Suc.prems transitions_S_error [OF Inl] show ?thesis by simp
  next
    case (Inr st1)
    with Suc.prems have "add_transitions fuel tch (length (S_ttt st1)) st1 = Some (Inl e)"
      by (simp add: Let_def split: if_splits)
    then show ?thesis by (rule Suc.IH)
  qed
qed

lemma construct_hypothesis_ok:
  assumes "construct_hypothesis fuel tch st = Some r" and p: "prefix_closed (keys_S st)"
    and one: "\<forall>a \<in> set (A_ttt st). length a = 1"
  shows "r \<noteq> Inl KeyError \<and>
         (\<forall>h st'. r = Inr (h, st') \<longrightarrow> prefix_closed (keys_S st') \<and> keys_S st \<subseteq> keys_S st')"
proof -
  from p have "[] \<in> set (map fst (S_ttt st))" by (simp add: prefix_closed_def keys_S_def)
  from dict_get_key [OF this] obtain q0 where g: "dict_get (S_ttt st) [] = Inr q0" ..
  from assms(1) g obtain r1 where a: "add_transitions fuel tch (length (S_ttt st)) st = Some r1"
    by (cases "add_transitions fuel tch (length (S_ttt st)) st") (auto simp: construct_hypothesis_def)
  show ?thesis
  proof (cases r1)
    case (Inl e)
    with assms(1) g a add_transitions_error [OF a [unfolded Inl]]
    show ?thesis by (auto simp: construct_hypothesis_def)
  next
    case (Inr st1)
    from add_transitions_ok [OF a [unfolded Inr]] p one
    have p1: "prefix_closed (keys_S st1)" and m: "keys_S st \<subseteq> keys_S st1" by auto
    from p1 have "\<forall>k \<in> set (map fst (S_ttt st1)). k \<noteq> [] \<longrightarrow> butlast k \<in> keys_S st1"
      by (simp add: prefix_closed_def keys_S_def)
    from spanning_tree_ok [OF this, of tch] obtain st2 where
      s: "spanning_tree tch (S_ttt st1) st1 = Inr st2" and S2: "S_ttt st2 = S_ttt st1" by auto
    from S2 have "keys_S st2 = keys_S st1" by (simp add: keys_S_def)
    with assms(1) g a Inr s p1 m show ?thesis by (auto simp: construct_hypothesis_def)
  qed
qed


subsection \<open>\<^verbatim>\<open>process_counterexample\<close> and the bijection\<close>


lemma spanning_tree_frame:
  "spanning_tree tch items st = Inr st' \<Longrightarrow>
   S_ttt st' = S_ttt st \<and> DTree st' = DTree st \<and> A_ttt st' = A_ttt st \<and>
   next_object st' = next_object st"
proof (induction items arbitrary: st)
  case Nil
  then show ?case by simp
next
  case (Cons item items)
  obtain k q where item: "item = (k, q)" by (cases item)
  show ?case
  proof (cases "k = []")
    case True
    with Cons show ?thesis by (simp add: item)
  next
    case False
    with Cons.prems obtain anc where g: "dict_get (S_ttt st) (butlast k) = Inr anc"
      by (cases "dict_get (S_ttt st) (butlast k)") (auto simp: item ebind_def)
    obtain ob where o: "object_add_edge st anc (last k) (ttt_query tch (butlast k @ [last k])) q
        = Inr (st\<lparr>objects := ob\<rparr>)"
      using object_add_edge_Inr [of st anc "last k" "ttt_query tch (butlast k @ [last k])" q] ..
    from Cons.prems False g o have "spanning_tree tch items (st\<lparr>objects := ob\<rparr>) = Inr st'"
      by (simp add: item ebind_def Let_def)
    from Cons.IH [OF this] show ?thesis by simp
  qed
qed

lemma construct_hypothesis_inv:
  assumes "construct_hypothesis fuel tch st = Some (Inr (h, st'))" and "ttt_inv st"
  shows "ttt_inv st'"
proof -
  from assms(1) obtain q0 where g: "dict_get (S_ttt st) [] = Inr q0"
    by (cases "dict_get (S_ttt st) []") (auto simp: construct_hypothesis_def)
  from assms(1) g obtain st1 where a: "add_transitions fuel tch (length (S_ttt st)) st = Some (Inr st1)"
    and s: "spanning_tree tch (S_ttt st1) st1 = Inr st'"
    by (auto simp: construct_hypothesis_def split: option.splits sum.splits)
  from add_transitions_ok [OF a] assms(2) have i1: "ttt_inv st1" by simp
  from spanning_tree_frame [OF s] have "ttt_inv st' = ttt_inv st1" by (intro ttt_inv_fields) simp_all
  with i1 show ?thesis by simp
qed

lemma process_counterexample_Inr:
  assumes "process_counterexample hp tch st ce = Inr st'" and d: "decompose hp st ce = (u, a, v)"
  defines "qo \<equiv> get_state_from_sequence hp st (u @ a)"
    and "k \<equiv> get_access_sequence hp st u @ a"
  defines "ro \<equiv> ttt_query tch (get_access_sequence_from_state hp st qo @ v)"
    and "rn \<equiv> ttt_query tch (k @ v)"
  shows "k \<notin> keys_S st \<and> rn \<noteq> ro \<and>
         (\<exists>root. DTree st = Some root \<and> qo \<in> set (leaves root) \<and>
            DTree st' = Some (replace_leaf qo
               (Inner v True [(rn, Leaf (next_object st)), (ro, Leaf qo)]) root)) \<and>
         S_ttt st' = S_ttt st @ [(k, next_object st)] \<and> A_ttt st' = A_ttt st \<and>
         next_object st' = Suc (next_object st)"
proof -
  from assms(1) have nk: "k \<notin> set (map fst (S_ttt st))"
    by (auto simp: process_counterexample_def d Let_def new_State_def k_def split: if_splits)
  from assms(1) nk obtain root where r: "DTree st = Some root"
    by (cases "DTree st")
      (auto simp: process_counterexample_def d Let_def new_State_def k_def split: if_splits)
  from assms(1) nk r have l: "qo \<in> set (leaves root)"
    by (auto simp: process_counterexample_def d Let_def new_State_def k_def qo_def split: if_splits)
  from assms(1) nk r l have ne: "rn \<noteq> ro"
    by (auto simp: process_counterexample_def d Let_def new_State_def k_def qo_def rn_def ro_def
        split: if_splits)
  from assms(1) nk r l ne show ?thesis
    by (auto simp: process_counterexample_def d Let_def new_State_def k_def qo_def rn_def ro_def
        keys_S_def dict_set_new_key split: if_splits)
qed

lemma process_counterexample_inv:
  assumes p: "process_counterexample hp tch st ce = Inr st'" and i: "ttt_inv st"
  shows "ttt_inv st' \<and> discovers st (next_object st) st'"
proof -
  obtain u a v where d: "decompose hp st ce = (u, a, v)" by (cases "decompose hp st ce")
  let ?q = "next_object st"
  from process_counterexample_Inr [OF p d] obtain root qo rn ro k where
    nk: "k \<notin> keys_S st" and ne: "rn \<noteq> ro" and r: "DTree st = Some root"
    and l: "qo \<in> set (leaves root)"
    and D': "DTree st' = Some (replace_leaf qo (Inner v True [(rn, Leaf ?q), (ro, Leaf qo)]) root)"
    and S': "S_ttt st' = S_ttt st @ [(k, ?q)]" and n': "next_object st' = Suc ?q"
    by blast
  from i r have dl: "distinct (leaves root)" and ls: "set (leaves root) = set (map snd (S_ttt st))"
    and b: "list_all (\<lambda>x. x < next_object st) (map snd (S_ttt st))"
    and dk: "distinct (map fst (S_ttt st))"
    by (simp_all add: ttt_inv_def leaf_bijection_def)
  from b have fresh: "?q \<notin> set (map snd (S_ttt st))" by (auto simp: list_all_iff)
  with ls have fl: "?q \<notin> set (leaves root)" by simp
  let ?new = "Inner v True [(rn, Leaf ?q), (ro, Leaf qo)]"
  from replace_leaf_leaves(1) [OF dl l, of ?new] l
  have s': "set (leaves (replace_leaf qo ?new root)) = insert ?q (set (leaves root))"
    and l': "length (leaves (replace_leaf qo ?new root)) = Suc (length (leaves root))" by auto
  from distinct_one_more [OF dl fl s' l'] have d': "distinct (leaves (replace_leaf qo ?new root))" .
  have "leaf_bijection st'" using d' s' ls by (simp add: leaf_bijection_def D' S')
  moreover have "list_all (\<lambda>x. x < next_object st') (map snd (S_ttt st'))"
    using b by (auto simp: S' n' list_all_iff)
  moreover have "distinct (map fst (S_ttt st'))" using dk nk by (simp add: S' keys_S_def)
  moreover have "discovers st ?q st'" using fresh s' l' by (simp add: discovers_def r D' S')
  ultimately show ?thesis by (simp add: ttt_inv_def)
qed


subsection \<open>The example learners\<close>


lemma string_of_nat_1: "string_of_nat (Suc 0) = ''1''"
  by code_simp

lemma word_split:
  "process_counterexample (first_helpers [] ''a'' ''a'') ttt_word_teacher
     (ttt_init ttt_word_teacher) ''aa'' = Inr split_learner"
  by (simp add: process_counterexample_def first_helpers_def ttt_word_teacher_def ttt_init_def
      new_State_def ttt_query_def split_learner_def sul_step_def string_of_nat_1 Let_def)

lemma symbol_split:
  "process_counterexample (first_helpers [] ''a'' ''aa'') ttt_symbol_teacher
     (ttt_init ttt_symbol_teacher) ''aaa'' = Inr symbol_split_learner"
  by (simp add: process_counterexample_def first_helpers_def ttt_symbol_teacher_def ttt_init_def
      new_State_def ttt_query_def symbol_split_learner_def sul_step_def string_of_nat_1 Let_def)

lemma split_learner_fields:
  "S_ttt split_learner = [([], 0), (''a'', 1)]"
  "DTree split_learner = Some (Inner ''a'' True [([0, 0], Leaf 1), ([0], Leaf 0)])"
  "A_ttt split_learner = [''a'', ''b'']"
  "next_object split_learner = 2"
  by (simp_all add: split_learner_def)

lemma symbol_split_learner_fields:
  "S_ttt symbol_split_learner = [([], 0), (''a'', 1)]"
  "DTree symbol_split_learner = Some (Inner ''aa'' True [(1, Leaf 1), (0, Leaf 0)])"
  "A_ttt symbol_split_learner = [''a'']"
  "next_object symbol_split_learner = 2"
  by (simp_all add: symbol_split_learner_def)

lemma ttt_word_query [simp]: "member_query ttt_word_teacher w = sul_outputs 0 w"
  by (simp add: ttt_word_teacher_def)

lemma ttt_symbol_query [simp]: "member_query ttt_symbol_teacher w = last (0 # sul_outputs 0 w)"
  by (simp add: ttt_symbol_teacher_def)

lemma symbol_split_hypothesis:
  "\<exists>h st'. construct_hypothesis 1 ttt_symbol_teacher symbol_split_learner = Some (Inr (h, st'))"
  by (simp add: construct_hypothesis_def dict_get_def symbol_split_learner_fields sift_def
      ttt_query_def object_add_edge_def add_edge_def ebind_def sul_step_def Let_def)


section \<open>TTT: the claims\<close>

text \<open>
  C2, as amended. For every word \<open>w\<close>, \<^verbatim>\<open>sift(w)\<close> walks from the root of the tree. At a leaf
  it returns the state of the leaf and changes nothing. At an inner node with suffix \<open>v\<close> it
  asks the membership query on \<open>w\<cdot>v\<close> and goes on in the child keyed by the response of that
  query as it is, the whole response and not its final symbol; the subtree that the walk
  leaves behind takes the place of that child. If no child is keyed by the response, \<open>w\<close>
  must not be a key of S (the assertion fails otherwise); then a new state named after the
  size of S is made, S maps \<open>w\<close> to it, a leaf holding it becomes the last child of the node,
  under the response, and the new state is returned. Without a root the assertion fails.
\<close>

theorem sift_descends_by_whole_response:
  "sift tch st w =
     (case DTree st of
        None \<Rightarrow> Inl AssertionError
      | Some (Leaf s) \<Rightarrow> Inr (s, st)
      | Some (Inner v t cs) \<Rightarrow>
          (let response = member_query tch (w @ v) in
           case map_of cs response of
             Some c \<Rightarrow>
               (case sift tch (st\<lparr>DTree := Some c\<rparr>) w of
                  Inl e \<Rightarrow> Inl e
                | Inr (q, st') \<Rightarrow>
                    Inr (q, st'\<lparr>DTree :=
                              map_option (\<lambda>c'. Inner v t (dict_set cs response c')) (DTree st')\<rparr>))
           | None \<Rightarrow>
               if w \<in> keys_S st then Inl AssertionError
               else
                 (let q = next_object st in
                  Inr (q, st\<lparr>S_ttt := S_ttt st @ [(w, q)],
                              DTree := Some (Inner v t (cs @ [(response, Leaf q)])),
                              objects := (objects st)
                                (q := MealyState (CHR ''s'' # string_of_nat (length (S_ttt st)))),
                              next_object := q + 1\<rparr>))))"
proof (cases "DTree st")
  case None
  then show ?thesis by (simp add: sift_def)
next
  case (Some root)
  show ?thesis
  proof (cases root)
    case (Leaf s)
    with Some show ?thesis by (simp add: sift_def)
  next
    case (Inner v t cs)
    let ?r = "member_query tch (w @ v)"
    show ?thesis
    proof (cases "map_of cs ?r")
      case None
      with Some Inner show ?thesis
        by (simp add: sift_def walk_Inner ttt_query_def new_State_def attach_Inner_missing
            dict_set_new_key keys_S_def Let_def del: walk.simps attach.simps)
    next
      case c: (Some c)
      show ?thesis
      proof (cases "walk (ttt_query tch) w c")
        case (Reached s)
        have "st\<lparr>DTree := Some (Inner v t cs)\<rparr> = st" using Some Inner by simp
        with Some Inner c Reached show ?thesis
          by (simp add: sift_def walk_Inner ttt_query_def dict_set_same Let_def del: walk.simps)
      next
        case (Fell p)
        then have ne: "p \<noteq> []" using walk_not_Fell_Nil [of "ttt_query tch" w c] by auto
        from Some Inner c Fell show ?thesis
          by (simp add: sift_def walk_Inner ttt_query_def new_State_def
              attach_Inner_descend [OF c ne] keys_S_def Let_def del: walk.simps attach.simps)
      qed
    qed
  qed
qed

theorem sift_descends_by_whole_response_witness:
  "sift ttt_word_teacher split_learner ''b'' = Inr (1, split_learner) \<and>
   member_query ttt_word_teacher (''b'' @ ''a'') = [0, 0] \<and>
   value_of (sift ttt_word_teacher split_learner ''aa'') = Inr 2 \<and>
   member_query ttt_word_teacher (''aa'' @ ''a'') = [0, 0, 1] \<and>
   sift ttt_word_teacher split_learner [] = Inr (0, split_learner)"
proof -
  have e: "split_learner\<lparr>DTree := Some (Inner ''a'' True [([0, 0], Leaf 1), ([0], Leaf 0)])\<rparr>
      = split_learner" by (simp add: split_learner_def)
  have l: "sift ttt_word_teacher (split_learner\<lparr>DTree := Some (Leaf n)\<rparr>) w
      = Inr (n, split_learner\<lparr>DTree := Some (Leaf n)\<rparr>)" for n w
    using sift_descends_by_whole_response
      [of ttt_word_teacher "split_learner\<lparr>DTree := Some (Leaf n)\<rparr>" w] by simp
  have 1: "sift ttt_word_teacher split_learner ''b'' = Inr (1, split_learner)"
    using sift_descends_by_whole_response [of ttt_word_teacher split_learner "''b''"]
    by (simp add: split_learner_fields sul_step_def l e Let_def)
  have 2: "value_of (sift ttt_word_teacher split_learner ''aa'') = Inr 2"
    using sift_descends_by_whole_response [of ttt_word_teacher split_learner "''aa''"]
    by (simp add: split_learner_fields sul_step_def keys_S_def value_of_def Let_def)
  have 3: "sift ttt_word_teacher split_learner [] = Inr (0, split_learner)"
    using sift_descends_by_whole_response [of ttt_word_teacher split_learner "[]"]
    by (simp add: split_learner_fields sul_step_def l e Let_def)
  from 1 2 3 show ?thesis by (simp add: sul_step_def)
qed

theorem sift_ignores_final_symbol_child_counterexample:
  "process_counterexample (first_helpers [] ''a'' ''a'') ttt_word_teacher
     (ttt_init ttt_word_teacher) ''aa'' = Inr split_learner \<and>
   DTree split_learner = Some (Inner ''a'' True [([0, 0], Leaf 1), ([0], Leaf 0)]) \<and>
   member_query ttt_word_teacher (''b'' @ ''a'') = [0, 0] \<and>
   walk_final_symbol (member_query ttt_word_teacher) ''b''
     (Inner ''a'' True [([0, 0], Leaf 1), ([0], Leaf 0)]) = Reached 0 \<and>
   value_of (sift ttt_word_teacher split_learner ''b'') = Inr 1"
  by (simp add: word_split split_learner_fields sift_def ttt_query_def value_of_def sul_step_def)

text \<open>
  C9. Every operation of the TTT learner that returns, \<^verbatim>\<open>sift\<close>, \<^verbatim>\<open>construct_hypothesis\<close> and
  \<^verbatim>\<open>process_counterexample\<close>, keeps the bijection between the states stored in S and the
  leaves of the discrimination tree: no two leaves hold the same state and the states at the
  leaves are the states stored in S. A \<^verbatim>\<open>sift\<close> either leaves the learner as it was or
  discovers the state it returns, and \<^verbatim>\<open>process_counterexample\<close> discovers the object it
  makes: S gets one entry more, for a state no entry held, and the tree one leaf more,
  holding that state.
\<close>

theorem operations_keep_leaf_bijection:
  assumes "ttt_inv st"
  shows "(\<forall>w q st'. sift tch st w = Inr (q, st') \<longrightarrow>
            ttt_inv st' \<and> (st' = st \<or> discovers st q st')) \<and>
         (\<forall>fuel h st'. construct_hypothesis fuel tch st = Some (Inr (h, st')) \<longrightarrow> ttt_inv st') \<and>
         (\<forall>ce st'. process_counterexample hp tch st ce = Inr st' \<longrightarrow>
            ttt_inv st' \<and> discovers st (next_object st) st')"
proof (intro conjI allI impI)
  fix w q st' assume "sift tch st w = Inr (q, st')"
  from sift_inv [OF this assms]
  show "ttt_inv st'" and "st' = st \<or> discovers st q st'" by simp_all
next
  fix fuel h st' assume "construct_hypothesis fuel tch st = Some (Inr (h, st'))"
  then show "ttt_inv st'" using assms by (rule construct_hypothesis_inv)
next
  fix ce st' assume "process_counterexample hp tch st ce = Inr st'"
  from process_counterexample_inv [OF this assms]
  show "ttt_inv st'" and "discovers st (next_object st) st'" by simp_all
qed

theorem operations_keep_leaf_bijection_witness:
  "ttt_inv (ttt_init ttt_symbol_teacher) \<and>
   process_counterexample (first_helpers [] ''a'' ''aa'') ttt_symbol_teacher
     (ttt_init ttt_symbol_teacher) ''aaa'' = Inr symbol_split_learner \<and>
   ttt_inv symbol_split_learner \<and>
   discovers (ttt_init ttt_symbol_teacher) 1 symbol_split_learner \<and>
   leaf_bijection symbol_split_learner \<and>
   (\<exists>h st'. construct_hypothesis 1 ttt_symbol_teacher symbol_split_learner = Some (Inr (h, st')) \<and>
      ttt_inv st') \<and>
   ttt_inv split_learner \<and>
   (\<exists>st'. sift ttt_word_teacher split_learner ''aa'' = Inr (2, st') \<and> ttt_inv st' \<and>
      discovers split_learner 2 st')"
proof -
  have i0: "ttt_inv (ttt_init ttt_symbol_teacher)" by (rule ttt_inv_init)
  note p = symbol_split
  from operations_keep_leaf_bijection [OF i0, of ttt_symbol_teacher "first_helpers [] ''a'' ''aa''"] p
  have i1: "ttt_inv symbol_split_learner"
    and d1: "discovers (ttt_init ttt_symbol_teacher) 1 symbol_split_learner"
    by (auto simp: ttt_init_def)
  from symbol_split_hypothesis obtain h st' where
    c: "construct_hypothesis 1 ttt_symbol_teacher symbol_split_learner = Some (Inr (h, st'))"
    by blast
  from operations_keep_leaf_bijection [OF i1, of ttt_symbol_teacher "first_helpers [] ''a'' ''aa''"] c
  have i2: "ttt_inv st'" by blast
  have i3: "ttt_inv split_learner"
    by (auto simp: ttt_inv_def leaf_bijection_def split_learner_fields)
  have "\<exists>st'. sift ttt_word_teacher split_learner ''aa'' = Inr (2, st') \<and> next_object st' = 3"
    by (simp add: sift_def split_learner_fields ttt_query_def sul_step_def new_State_def Let_def)
  then obtain st2 where s: "sift ttt_word_teacher split_learner ''aa'' = Inr (2, st2)"
    and n: "next_object st2 = 3" by blast
  from n have ne: "st2 \<noteq> split_learner" by (auto simp: split_learner_fields)
  from operations_keep_leaf_bijection [OF i3, of ttt_word_teacher "first_helpers [] ''a'' ''aa''"] s ne
  have i4: "ttt_inv st2 \<and> discovers split_learner 2 st2" by blast
  from i0 p i1 d1 c i2 i3 s i4 show ?thesis by (auto simp: ttt_inv_def)
qed

text \<open>
  C10. Let S be prefix-closed and let A hold one-symbol words. Then the spanning-tree pass
  finds the ancestor of every non-empty key; \<^verbatim>\<open>construct_hypothesis\<close>, with whatever fuel, never
  ends in a \<open>KeyError\<close>, and the learner it returns has a prefix-closed S that holds the keys it
  had. A \<^verbatim>\<open>sift\<close> of a key extended by a word of A, as the transition loop calls it, adds at
  most that word to the keys and keeps S prefix-closed. \<^verbatim>\<open>process_counterexample\<close> adds the
  key \<^verbatim>\<open>get_access_sequence(u) + a\<close> and keeps S prefix-closed, when \<open>a\<close> is one symbol and
  \<^verbatim>\<open>get_access_sequence(u)\<close> is a key of S.
\<close>

theorem prefix_closed_S_stays_prefix_closed:
  assumes "prefix_closed (keys_S st)" and "\<forall>a \<in> set (A_ttt st). length a = 1"
  shows "(\<exists>st'. spanning_tree tch (S_ttt st) st = Inr st') \<and>
         (\<forall>fuel r. construct_hypothesis fuel tch st = Some r \<longrightarrow>
            r \<noteq> Inl KeyError \<and>
            (\<forall>h st'. r = Inr (h, st') \<longrightarrow> prefix_closed (keys_S st') \<and> keys_S st \<subseteq> keys_S st')) \<and>
         (\<forall>k a q st'. k \<in> keys_S st \<and> a \<in> set (A_ttt st) \<and> sift tch st (k @ a) = Inr (q, st') \<longrightarrow>
            prefix_closed (keys_S st') \<and> keys_S st \<subseteq> keys_S st' \<and>
            keys_S st' \<subseteq> insert (k @ a) (keys_S st)) \<and>
         (\<forall>ce u a v st'.
            decompose hp st ce = (u, a, v) \<and> length a = 1 \<and>
            get_access_sequence hp st u \<in> keys_S st \<and>
            process_counterexample hp tch st ce = Inr st' \<longrightarrow>
            prefix_closed (keys_S st') \<and>
            keys_S st' = insert (get_access_sequence hp st u @ a) (keys_S st))"
proof (intro conjI allI impI)
  from assms(1) have "\<forall>k \<in> set (map fst (S_ttt st)). k \<noteq> [] \<longrightarrow> butlast k \<in> keys_S st"
    by (simp add: prefix_closed_def keys_S_def)
  from spanning_tree_ok [OF this, of tch]
  show "\<exists>st'. spanning_tree tch (S_ttt st) st = Inr st'" by blast
next
  fix fuel r assume c: "construct_hypothesis fuel tch st = Some r"
  from construct_hypothesis_ok [OF c assms] show "r \<noteq> Inl KeyError" by simp
  fix h st' assume "r = Inr (h, st')"
  with construct_hypothesis_ok [OF c assms]
  show "prefix_closed (keys_S st')" and "keys_S st \<subseteq> keys_S st'" by simp_all
next
  fix k a q st'
  assume h: "k \<in> keys_S st \<and> a \<in> set (A_ttt st) \<and> sift tch st (k @ a) = Inr (q, st')"
  then have s: "sift tch st (k @ a) = Inr (q, st')" by simp
  note f = sift_frame [OF s]
  from f show "keys_S st \<subseteq> keys_S st'" and "keys_S st' \<subseteq> insert (k @ a) (keys_S st)" by simp_all
  from f h have "keys_S st' \<subseteq> keys_S st \<union> {k @ a | k a. k \<in> keys_S st \<and> a \<in> set (A_ttt st)}"
    by blast
  with prefix_closed_grow [OF assms(1), of "keys_S st'" "set (A_ttt st)"] f assms(2)
  show "prefix_closed (keys_S st')" by simp
next
  fix ce u a v st'
  assume h: "decompose hp st ce = (u, a, v) \<and> length a = 1 \<and>
            get_access_sequence hp st u \<in> keys_S st \<and>
            process_counterexample hp tch st ce = Inr st'"
  then have d: "decompose hp st ce = (u, a, v)" and p: "process_counterexample hp tch st ce = Inr st'"
    by simp_all
  from process_counterexample_Inr [OF p d]
  have S': "S_ttt st' = S_ttt st @ [(get_access_sequence hp st u @ a, next_object st)]" by simp
  then show e: "keys_S st' = insert (get_access_sequence hp st u @ a) (keys_S st)"
    by (simp add: keys_S_def)
  from h obtain x where a: "a = [x]" by (cases a) auto
  from assms(1) h show "prefix_closed (keys_S st')"
    unfolding e a by (auto simp: prefix_closed_def)
qed

theorem prefix_closed_S_stays_prefix_closed_witness:
  "prefix_closed (keys_S symbol_split_learner) \<and>
   list_all (\<lambda>a. length a = 1) (A_ttt symbol_split_learner) \<and>
   (\<exists>st'. spanning_tree ttt_symbol_teacher (S_ttt symbol_split_learner) symbol_split_learner
      = Inr st') \<and>
   (\<exists>h st'. construct_hypothesis 1 ttt_symbol_teacher symbol_split_learner = Some (Inr (h, st')) \<and>
      prefix_closed (keys_S st') \<and> keys_S symbol_split_learner \<subseteq> keys_S st') \<and>
   prefix_closed (keys_S split_learner) \<and>
   list_all (\<lambda>a. length a = 1) (A_ttt split_learner) \<and>
   ''a'' \<in> keys_S split_learner \<and> ''a'' \<in> set (A_ttt split_learner) \<and>
   (\<exists>st'. sift ttt_word_teacher split_learner (''a'' @ ''a'') = Inr (2, st') \<and>
      prefix_closed (keys_S st') \<and> keys_S st' \<subseteq> insert ''aa'' (keys_S split_learner)) \<and>
   prefix_closed (keys_S (ttt_init ttt_symbol_teacher)) \<and>
   list_all (\<lambda>a. length a = 1) (A_ttt (ttt_init ttt_symbol_teacher)) \<and>
   decompose (first_helpers [] ''a'' ''aa'') (ttt_init ttt_symbol_teacher) ''aaa''
     = ([], ''a'', ''aa'') \<and> length ''a'' = 1 \<and>
   get_access_sequence (first_helpers [] ''a'' ''aa'') (ttt_init ttt_symbol_teacher) []
     \<in> keys_S (ttt_init ttt_symbol_teacher) \<and>
   process_counterexample (first_helpers [] ''a'' ''aa'') ttt_symbol_teacher
     (ttt_init ttt_symbol_teacher) ''aaa'' = Inr symbol_split_learner \<and>
   keys_S symbol_split_learner = insert ''a'' (keys_S (ttt_init ttt_symbol_teacher))"
proof -
  let ?hp = "first_helpers [] ''a'' ''aa'' :: (char, nat) ttt_helpers"
  let ?hw = "first_helpers [] ''a'' ''a'' :: (char, nat list) ttt_helpers"
  have p1: "prefix_closed (keys_S symbol_split_learner)"
    by (simp add: prefix_closed_def keys_S_def symbol_split_learner_fields)
  have a1: "\<forall>a \<in> set (A_ttt symbol_split_learner). length a = 1"
    by (simp add: symbol_split_learner_fields)
  from symbol_split_hypothesis obtain h st' where
    c: "construct_hypothesis 1 ttt_symbol_teacher symbol_split_learner = Some (Inr (h, st'))"
    by blast
  from prefix_closed_S_stays_prefix_closed [OF p1 a1, of ttt_symbol_teacher ?hp] c
  have r1: "\<exists>st'. spanning_tree ttt_symbol_teacher (S_ttt symbol_split_learner) symbol_split_learner
      = Inr st'"
    and r2: "prefix_closed (keys_S st') \<and> keys_S symbol_split_learner \<subseteq> keys_S st'"
    by blast+
  have p2: "prefix_closed (keys_S split_learner)"
    by (simp add: prefix_closed_def keys_S_def split_learner_fields)
  have a2: "\<forall>a \<in> set (A_ttt split_learner). length a = 1"
    by (simp add: split_learner_fields)
  have m2: "''a'' \<in> keys_S split_learner" "''a'' \<in> set (A_ttt split_learner)"
    by (simp_all add: keys_S_def split_learner_fields)
  have "\<exists>st'. sift ttt_word_teacher split_learner (''a'' @ ''a'') = Inr (2, st')"
    by (simp add: sift_def split_learner_fields ttt_query_def sul_step_def new_State_def Let_def)
  then obtain st2 where s: "sift ttt_word_teacher split_learner (''a'' @ ''a'') = Inr (2, st2)" ..
  from prefix_closed_S_stays_prefix_closed [OF p2 a2, of ttt_word_teacher ?hw] m2 s
  have r3: "prefix_closed (keys_S st2) \<and> keys_S st2 \<subseteq> insert (''a'' @ ''a'') (keys_S split_learner)"
    by blast
  have p3: "prefix_closed (keys_S (ttt_init ttt_symbol_teacher))"
    by (simp add: prefix_closed_def keys_S_def ttt_init_def)
  have a3: "\<forall>a \<in> set (A_ttt (ttt_init ttt_symbol_teacher)). length a = 1"
    by (simp add: ttt_init_def ttt_symbol_teacher_def)
  have d3: "decompose ?hp (ttt_init ttt_symbol_teacher) ''aaa'' = ([], ''a'', ''aa'')"
    and g3: "get_access_sequence ?hp (ttt_init ttt_symbol_teacher) []
      \<in> keys_S (ttt_init ttt_symbol_teacher)"
    and g3': "get_access_sequence ?hp (ttt_init ttt_symbol_teacher) [] = []"
    by (simp_all add: first_helpers_def keys_S_def ttt_init_def)
  have l3: "length ''a'' = 1" by simp
  from prefix_closed_S_stays_prefix_closed [OF p3 a3, of ttt_symbol_teacher ?hp] d3 l3 g3 symbol_split
  have r4: "keys_S symbol_split_learner =
      insert (get_access_sequence ?hp (ttt_init ttt_symbol_teacher) [] @ ''a'')
        (keys_S (ttt_init ttt_symbol_teacher))"
    by blast
  from p1 a1 r1 c r2 p2 a2 m2 s r3 p3 a3 d3 g3 symbol_split r4 show ?thesis
    unfolding g3' by (auto simp: list_all_iff simp del: One_nat_def)
qed

end
